theory Spec2Isabelle
  imports Main
begin

section \<open>Node objects (src/internal/tree-node.js)\<close>

text \<open>
  The two colour constants \<^verbatim>\<open>RED = 1\<close> and \<^verbatim>\<open>BLACK = 2\<close>.
\<close>

datatype color = RED | BLACK

text \<open>
  A \<^verbatim>\<open>TreeNode\<close> is a JavaScript object. Objects live in a store and are named by
  their address; a link field holds either \<^verbatim>\<open>null\<close> (\<open>None\<close>) or the address of
  another node. The constructor sets every link and the key to \<^verbatim>\<open>null\<close> and the
  colour to \<^verbatim>\<open>RED\<close>.
\<close>

type_synonym addr = nat

record 'k TreeNode =
  left :: "addr option"
  right :: "addr option"
  parent :: "addr option"
  key :: "'k option"
  color :: color

definition new_TreeNode :: "'k TreeNode" where
  "new_TreeNode = \<lparr>left = None, right = None, parent = None, key = None, color = RED\<rparr>"

type_synonym 'k store = "addr \<Rightarrow> 'k TreeNode"

text \<open>
  What a JavaScript function can throw. Reading a property of \<^verbatim>\<open>null\<close> throws a
  \<^verbatim>\<open>TypeError\<close>; \<open>Error msg\<close> is \<^verbatim>\<open>throw new Error(msg)\<close>; \<open>Precondition\<close> is the
  failure of an operation whose argument does not belong to the container.
\<close>

datatype error = Error string | TypeError | Precondition

text \<open>\<^verbatim>\<open>r.f\<close> for a reference \<open>r\<close> that may be \<^verbatim>\<open>null\<close>.\<close>

definition get_field :: "'k store \<Rightarrow> addr option \<Rightarrow> ('k TreeNode \<Rightarrow> 'a) \<Rightarrow> error + 'a" where
  "get_field h r f = (case r of None \<Rightarrow> Inl TypeError | Some a \<Rightarrow> Inr (f (h a)))"

text \<open>
  \<^verbatim>\<open>grandparent() { let p = this.parent; if (p === null) { return null; } return p.parent; }\<close>
\<close>

definition grandparent :: "'k store \<Rightarrow> addr \<Rightarrow> error + addr option" where
  "grandparent h this =
     (let p = parent (h this) in
      if p = None then Inr None
      else get_field h p parent)"

text \<open>
  \<^verbatim>\<open>sibling() { let p = this.parent; if (p === null) { return null; }
     if (this === p.left) { return p.right; } else { return p.left; } }\<close>
\<close>

definition sibling :: "'k store \<Rightarrow> addr \<Rightarrow> error + addr option" where
  "sibling h this =
     (let p = parent (h this) in
      if p = None then Inr None
      else (case get_field h p left of
              Inl e \<Rightarrow> Inl e
            | Inr pl \<Rightarrow> if Some this = pl then get_field h p right else get_field h p left))"

text \<open>
  \<^verbatim>\<open>uncle() { let p = this.parent; if (p === null) { return null; }
     let g = p.parent; if (g === null) { return null; } return p.sibling(); }\<close>
\<close>

definition uncle :: "'k store \<Rightarrow> addr \<Rightarrow> error + addr option" where
  "uncle h this =
     (let p = parent (h this) in
      if p = None then Inr None
      else (case get_field h p parent of
              Inl e \<Rightarrow> Inl e
            | Inr g \<Rightarrow>
                if g = None then Inr None
                else (case p of None \<Rightarrow> Inl TypeError | Some pa \<Rightarrow> sibling h pa)))"

section \<open>The tree engine\<close>

text \<open>
  The files \<^verbatim>\<open>src/internal/tree.js\<close>, \<^verbatim>\<open>src/internal/policies.js\<close> and
  \<^verbatim>\<open>src/public/iterators.js\<close>, which hold the class \<^verbatim>\<open>Tree\<close> that \<^verbatim>\<open>tree-set.js\<close>
  delegates to, are not among the sources. The definitions of this section are modelled
  from the specification (\<^verbatim>\<open>spec.md\<close>, sections 3 and 4).
\<close>

text \<open>
  Modelled from the spec: the node graph of section 3, whose code (\<^verbatim>\<open>tree.js\<close>) is
  missing. The linked structure is represented by its shape. A \<open>Node\<close> of the shape
  stands for one \<^verbatim>\<open>TreeNode\<close> object: it carries the object's colour, its address
  (the identity a cursor refers to), its key and, for map-like containers, its value;
  the two subtrees are the \<^verbatim>\<open>left\<close> and \<^verbatim>\<open>right\<close> links, \<open>Leaf\<close> is an absent child,
  and the \<^verbatim>\<open>parent\<close> link of a node is the node directly above it.
\<close>

record ('k, 'v) node =
  node_id :: addr
  node_key :: 'k
  node_value :: "'v option"

datatype ('k, 'v) rbt = Leaf | Node color "('k, 'v) rbt" "('k, 'v) node" "('k, 'v) rbt"

text \<open>
  Modelled from the spec (section 3, invariant 1): an absent child is treated as Black.
  \<open>paint\<close> assigns the colour of a node, \<open>inorder\<close> lists the nodes from left to right,
  \<open>count\<close> is the number of nodes.
\<close>

fun color_of :: "('k, 'v) rbt \<Rightarrow> color" where
  "color_of Leaf = BLACK"
| "color_of (Node c l n r) = c"

fun paint :: "color \<Rightarrow> ('k, 'v) rbt \<Rightarrow> ('k, 'v) rbt" where
  "paint c Leaf = Leaf"
| "paint c (Node c' l n r) = Node c l n r"

fun inorder :: "('k, 'v) rbt \<Rightarrow> ('k, 'v) node list" where
  "inorder Leaf = []"
| "inorder (Node c l n r) = inorder l @ n # inorder r"

fun count :: "('k, 'v) rbt \<Rightarrow> nat" where
  "count Leaf = 0"
| "count (Node c l n r) = Suc (count l + count r)"

text \<open>
  Modelled from the spec: rotation, ``standard subtree rotation around an edge''. The
  nodes keep their colours; the result is the rotated subtree, which the caller links
  where the old subtree was (this is the update of the parent back-references and of
  the tree's root reference).
\<close>

fun rotate_left :: "('k, 'v) rbt \<Rightarrow> ('k, 'v) rbt" where
  "rotate_left (Node c a x (Node c' b y d)) = Node c' (Node c a x b) y d"
| "rotate_left t = t"

fun rotate_right :: "('k, 'v) rbt \<Rightarrow> ('k, 'v) rbt" where
  "rotate_right (Node c (Node c' a x b) y d) = Node c' a x (Node c b y d)"
| "rotate_right t = t"

text \<open>
  Modelled from the spec: the parent back-references of section 3. The way from a
  position up to the root, which the engine walks through the \<^verbatim>\<open>parent\<close> links, is a
  list with one frame per ancestor, nearest first. A frame records on which
  side of the ancestor the position lies, the ancestor's colour and node, and the
  ancestor's other subtree (the sibling of the position).
\<close>

datatype dir = Lft | Rgt

datatype ('k, 'v) frame = Frame dir color "('k, 'v) node" "('k, 'v) rbt"

type_synonym ('k, 'v) path = "('k, 'v) frame list"

fun plug1 :: "('k, 'v) rbt \<Rightarrow> ('k, 'v) frame \<Rightarrow> ('k, 'v) rbt" where
  "plug1 t (Frame Lft c n s) = Node c t n s"
| "plug1 t (Frame Rgt c n s) = Node c s n t"

fun plug :: "('k, 'v) rbt \<Rightarrow> ('k, 'v) path \<Rightarrow> ('k, 'v) rbt" where
  "plug t [] = t"
| "plug t (f # fs) = plug (plug1 t f) fs"

fun rotate :: "dir \<Rightarrow> ('k, 'v) rbt \<Rightarrow> ('k, 'v) rbt" where
  "rotate Lft t = rotate_left t"
| "rotate Rgt t = rotate_right t"

fun opposite :: "dir \<Rightarrow> dir" where
  "opposite Lft = Rgt"
| "opposite Rgt = Lft"

text \<open>The nodes of the tree before and after the subtree at the position, from left to
  right.\<close>

fun path_before :: "('k, 'v) path \<Rightarrow> ('k, 'v) node list" where
  "path_before [] = []"
| "path_before (Frame Lft c n s # fs) = path_before fs"
| "path_before (Frame Rgt c n s # fs) = path_before fs @ inorder s @ [n]"

fun path_after :: "('k, 'v) path \<Rightarrow> ('k, 'v) node list" where
  "path_after [] = []"
| "path_after (Frame Lft c n s # fs) = n # inorder s @ path_after fs"
| "path_after (Frame Rgt c n s # fs) = path_after fs"

text \<open>
  Modelled from the spec (``descend to its leftmost node''): the descent from a node
  along the \<^verbatim>\<open>left\<close> links to the leftmost node of its subtree;
  the result is the subtree of that node and the way from it up to the root.
\<close>

fun min_path :: "('k, 'v) rbt \<Rightarrow> ('k, 'v) path \<Rightarrow> ('k, 'v) rbt \<times> ('k, 'v) path" where
  "min_path (Node c (Node c' l' n' r') n r) p = min_path (Node c' l' n' r') (Frame Lft c n r # p)"
| "min_path t p = (t, p)"

text \<open>
  Modelled from the spec (section 3): the tree owns the root, a size counter and the
  comparator, an injected three-way ordering function (negative, zero, positive).
\<close>

record ('k, 'v) Tree =
  root :: "('k, 'v) rbt"
  tsize :: nat
  compare :: "'k \<Rightarrow> 'k \<Rightarrow> int"

definition Tree_new :: "('k \<Rightarrow> 'k \<Rightarrow> int) \<Rightarrow> ('k, 'v) Tree" where
  "Tree_new cmp = \<lparr>root = Leaf, tsize = 0, compare = cmp\<rparr>"

text \<open>Modelled from the spec: \<^verbatim>\<open>size()\<close> and \<^verbatim>\<open>clear()\<close> (``releases the entire graph,
  resets size to 0'').\<close>

definition Tree_size :: "('k, 'v) Tree \<Rightarrow> nat" where
  "Tree_size T = tsize T"

definition Tree_clear :: "('k, 'v) Tree \<Rightarrow> ('k, 'v) Tree" where
  "Tree_clear T = T\<lparr>root := Leaf, tsize := 0\<rparr>"

subsection \<open>Cursors and traversal\<close>

text \<open>
  Modelled from the spec (section 4.3): a cursor is either at a node or the end
  sentinel; two cursors of one tree are equal iff they are at the same node or both
  at the end.
\<close>

datatype cursor = End | At addr

definition equals :: "cursor \<Rightarrow> cursor \<Rightarrow> bool" where
  "equals a b = (a = b)"

text \<open>
  Modelled from the spec (section 4.3): the place of a cursor's node in the tree, which
  \<^verbatim>\<open>next()\<close> starts from: the subtree of the node and the way up to the root, or the
  end. \<^verbatim>\<open>next()\<close> ``moves to the in-order successor: if a right subtree exists, descend
  to its leftmost node; otherwise ascend through parents while the current node is a
  right child, stopping at the first ancestor reached via a left-child edge (or reaching
  the end sentinel if none exists)''.
\<close>

datatype ('k, 'v) position = AtEnd | AtNode "('k, 'v) rbt" "('k, 'v) path"

fun cursor_of :: "('k, 'v) position \<Rightarrow> cursor" where
  "cursor_of AtEnd = End"
| "cursor_of (AtNode Leaf p) = End"
| "cursor_of (AtNode (Node c l n r) p) = At (node_id n)"

fun descend_leftmost :: "('k, 'v) rbt \<Rightarrow> ('k, 'v) path \<Rightarrow> ('k, 'v) position" where
  "descend_leftmost Leaf p = AtEnd"
| "descend_leftmost (Node c l n r) p = (case min_path (Node c l n r) p of (t, q) \<Rightarrow> AtNode t q)"

fun ascend :: "('k, 'v) rbt \<Rightarrow> ('k, 'v) path \<Rightarrow> ('k, 'v) position" where
  "ascend t [] = AtEnd"
| "ascend t (Frame Lft c n s # fs) = AtNode (Node c t n s) fs"
| "ascend t (Frame Rgt c n s # fs) = ascend (Node c s n t) fs"

fun next_position :: "('k, 'v) position \<Rightarrow> ('k, 'v) position" where
  "next_position AtEnd = AtEnd"
| "next_position (AtNode Leaf p) = AtEnd"
| "next_position (AtNode (Node c l n r) p) =
     (if r \<noteq> Leaf then descend_leftmost r (Frame Rgt c n l # p)
      else ascend (Node c l n r) p)"

text \<open>
  Modelled from the spec: \<^verbatim>\<open>begin()\<close> is the cursor at the in-order-first node, the
  leftmost node of the tree, and \<^verbatim>\<open>end()\<close> the one-past-last sentinel.
\<close>

definition Tree_begin :: "('k, 'v) Tree \<Rightarrow> cursor" where
  "Tree_begin T = cursor_of (descend_leftmost (root T) [])"

definition Tree_end :: "('k, 'v) Tree \<Rightarrow> cursor" where
  "Tree_end T = End"

text \<open>
  Modelled from the spec: a full forward traversal starts at \<^verbatim>\<open>begin()\<close> and calls
  \<^verbatim>\<open>next()\<close> until the cursor is the end, yielding the node at each step. The loop ends
  because the nodes that are still to come, \<open>entries_from\<close>, become fewer with every step.
\<close>

fun entries_from :: "('k, 'v) position \<Rightarrow> ('k, 'v) node list" where
  "entries_from AtEnd = []"
| "entries_from (AtNode Leaf p) = []"
| "entries_from (AtNode (Node c l n r) p) = n # inorder r @ path_after p"

lemma entries_from_ascend: "entries_from (ascend t p) = path_after p"
  by (induction t p rule: ascend.induct) auto

lemma min_path_entries:
  "min_path t p = (t', q) \<Longrightarrow> t \<noteq> Leaf \<Longrightarrow> entries_from (AtNode t' q) = inorder t @ path_after p"
  by (induction t p arbitrary: t' q rule: min_path.induct) auto

lemma entries_from_descend:
  "t \<noteq> Leaf \<or> p = [] \<Longrightarrow> entries_from (descend_leftmost t p) = inorder t @ path_after p"
  by (cases t) (auto simp: min_path_entries split: prod.splits)

lemma entries_from_next:
  "entries_from (AtNode (Node c l n r) p) = n # entries_from (next_position (AtNode (Node c l n r) p))"
  by (simp add: entries_from_ascend entries_from_descend)

function iterate :: "('k, 'v) position \<Rightarrow> ('k, 'v) node list" where
  "iterate AtEnd = []"
| "iterate (AtNode Leaf p) = []"
| "iterate (AtNode (Node c l n r) p) = n # iterate (next_position (AtNode (Node c l n r) p))"
  by pat_completeness auto
termination
proof (relation "measure (\<lambda>pos. length (entries_from pos))")
  show "wf (measure (\<lambda>pos. length (entries_from pos)))" by simp
next
  fix c l n r p
  have "entries_from (AtNode (Node c l n r) p)
      = n # entries_from (next_position (AtNode (Node c l n r) p))"
    by (rule entries_from_next)
  then show "(next_position (AtNode (Node c l n r) p), AtNode (Node c l n r) p)
      \<in> measure (\<lambda>pos. length (entries_from pos))"
    by simp
qed

definition traverse :: "('k, 'v) rbt \<Rightarrow> ('k, 'v) node list" where
  "traverse t = iterate (descend_leftmost t [])"

definition Tree_entries :: "('k, 'v) Tree \<Rightarrow> ('k, 'v) node list" where
  "Tree_entries T = traverse (root T)"

definition Tree_keys :: "('k, 'v) Tree \<Rightarrow> 'k list" where
  "Tree_keys T = map node_key (traverse (root T))"

text \<open>The traversal visits the nodes of the tree from left to right.\<close>

lemma iterate_entries: "iterate pos = entries_from pos"
proof (induction pos rule: iterate.induct)
  case (3 c l n r p)
  then show ?case using entries_from_next[of c l n r p] by simp
qed simp_all

lemma traverse_inorder: "traverse t = inorder t"
  by (simp add: traverse_def iterate_entries entries_from_descend)

lemma Tree_entries_inorder: "Tree_entries T = inorder (root T)"
  by (simp add: Tree_entries_def traverse_inorder)

lemma Tree_keys_inorder: "Tree_keys T = map node_key (inorder (root T))"
  by (simp add: Tree_keys_def traverse_inorder)

subsection \<open>Queries\<close>

text \<open>
  Modelled from the spec: \<^verbatim>\<open>find(key)\<close> ``descends by comparator'' and returns the end
  cursor if the key is absent.
\<close>

fun find_node :: "('k \<Rightarrow> 'k \<Rightarrow> int) \<Rightarrow> 'k \<Rightarrow> ('k, 'v) rbt \<Rightarrow> cursor" where
  "find_node cmp k Leaf = End"
| "find_node cmp k (Node c l n r) =
     (let rc = cmp k (node_key n) in
      if rc < 0 then find_node cmp k l
      else if rc > 0 then find_node cmp k r
      else At (node_id n))"

definition Tree_find :: "'k \<Rightarrow> ('k, 'v) Tree \<Rightarrow> cursor" where
  "Tree_find k T = find_node (compare T) k (root T)"

text \<open>
  Modelled from the spec: \<^verbatim>\<open>lowerBound\<close> and \<^verbatim>\<open>upperBound\<close> in O(log n), that is by
  one descent that remembers the last node at which it turned left. \<open>y\<close> is that
  candidate, initially the end.
\<close>

fun lower_bound_node :: "('k \<Rightarrow> 'k \<Rightarrow> int) \<Rightarrow> 'k \<Rightarrow> ('k, 'v) rbt \<Rightarrow> cursor \<Rightarrow> cursor" where
  "lower_bound_node cmp k Leaf y = y"
| "lower_bound_node cmp k (Node c l n r) y =
     (if cmp (node_key n) k < 0 then lower_bound_node cmp k r y
      else lower_bound_node cmp k l (At (node_id n)))"

fun upper_bound_node :: "('k \<Rightarrow> 'k \<Rightarrow> int) \<Rightarrow> 'k \<Rightarrow> ('k, 'v) rbt \<Rightarrow> cursor \<Rightarrow> cursor" where
  "upper_bound_node cmp k Leaf y = y"
| "upper_bound_node cmp k (Node c l n r) y =
     (if cmp (node_key n) k > 0 then upper_bound_node cmp k l (At (node_id n))
      else upper_bound_node cmp k r y)"

definition Tree_lowerBound :: "'k \<Rightarrow> ('k, 'v) Tree \<Rightarrow> cursor" where
  "Tree_lowerBound k T = lower_bound_node (compare T) k (root T) End"

definition Tree_upperBound :: "'k \<Rightarrow> ('k, 'v) Tree \<Rightarrow> cursor" where
  "Tree_upperBound k T = upper_bound_node (compare T) k (root T) End"

subsection \<open>Insertion\<close>

text \<open>
  Modelled from the spec: ``locates the insertion point via comparator-guided
  descent''. The descent for unique keys stops at a node with an equal key or at an
  absent child; the result is the subtree it stopped at and the way back up. The
  descent for multiple keys goes right on equal keys, so that it ends at the
  upper-bound position, after all equal keys.
\<close>

fun find_path :: "('k \<Rightarrow> 'k \<Rightarrow> int) \<Rightarrow> 'k \<Rightarrow> ('k, 'v) rbt \<Rightarrow> ('k, 'v) path
    \<Rightarrow> ('k, 'v) rbt \<times> ('k, 'v) path" where
  "find_path cmp k Leaf p = (Leaf, p)"
| "find_path cmp k (Node c l n r) p =
     (let rc = cmp k (node_key n) in
      if rc < 0 then find_path cmp k l (Frame Lft c n r # p)
      else if rc > 0 then find_path cmp k r (Frame Rgt c n l # p)
      else (Node c l n r, p))"

fun upper_path :: "('k \<Rightarrow> 'k \<Rightarrow> int) \<Rightarrow> 'k \<Rightarrow> ('k, 'v) rbt \<Rightarrow> ('k, 'v) path \<Rightarrow> ('k, 'v) path" where
  "upper_path cmp k Leaf p = p"
| "upper_path cmp k (Node c l n r) p =
     (if cmp k (node_key n) < 0 then upper_path cmp k l (Frame Lft c n r # p)
      else upper_path cmp k r (Frame Rgt c n l # p))"

text \<open>
  Modelled from the spec: insert-fixup. \<open>z\<close> is the subtree of the node under repair
  (a Red node) and the path leads from it to the root. While the parent is Red (and
  there is a grandparent):
  (a) the uncle is Red: parent and uncle become Black, the grandparent Red, and the
      repair continues from the grandparent;
  (b) the uncle is Black and the node is an inner grandchild: rotate at the parent,
      which gives the outer case;
  (c) the uncle is Black and the node is an outer grandchild: the parent becomes Black,
      the grandparent Red, rotate at the grandparent; the loop ends.
  The loop also ends when the node is the root, when its parent is Black, and when a
  Red parent is the root. The result is the whole tree; the caller forces the root
  Black.
\<close>

fun insert_fixup :: "('k, 'v) rbt \<Rightarrow> ('k, 'v) path \<Rightarrow> ('k, 'v) rbt" where
  "insert_fixup z (Frame d RED p s # Frame d' cg g u # path) =
     (if color_of u = RED
      then insert_fixup (plug1 (plug1 z (Frame d BLACK p s)) (Frame d' RED g (paint BLACK u))) path
      else
        let pt = (if d \<noteq> d' then rotate d' (plug1 z (Frame d RED p s))
                  else plug1 z (Frame d RED p s))
        in plug (rotate (opposite d') (plug1 (paint BLACK pt) (Frame d' RED g u))) path)"
| "insert_fixup z [] = z"
| "insert_fixup z (Frame d BLACK p s # path) = plug z (Frame d BLACK p s # path)"
| "insert_fixup z [Frame d RED p s] = plug z [Frame d RED p s]"

definition link_node :: "('k, 'v) node \<Rightarrow> ('k, 'v) path \<Rightarrow> ('k, 'v) rbt" where
  "link_node n p = paint BLACK (insert_fixup (Node RED Leaf n Leaf) p)"

text \<open>Modelled from the spec: the insertion result \<^verbatim>\<open>{wasInserted, cursor}\<close>.\<close>

record InsertionResult =
  wasInserted :: bool
  iterator :: cursor

text \<open>
  Modelled from the spec: \<^verbatim>\<open>insertUnique(node)\<close>. If a node with an equal key exists
  the call is a no-op and reports ``not inserted'' with a cursor to the existing node;
  otherwise the new node is linked as a Red child, the size is incremented and
  insert-fixup runs.
\<close>

definition Tree_insertUnique :: "('k, 'v) node \<Rightarrow> ('k, 'v) Tree \<Rightarrow> InsertionResult \<times> ('k, 'v) Tree" where
  "Tree_insertUnique n T =
     (case find_path (compare T) (node_key n) (root T) [] of
        (Leaf, p) \<Rightarrow>
          (\<lparr>wasInserted = True, iterator = At (node_id n)\<rparr>,
           T\<lparr>root := link_node n p, tsize := tsize T + 1\<rparr>)
      | (Node c l m r, p) \<Rightarrow>
          (\<lparr>wasInserted = False, iterator = At (node_id m)\<rparr>, T))"

text \<open>
  Modelled from the spec: \<^verbatim>\<open>insertMulti(node)\<close>, which places the node at the
  upper-bound position among equal keys and always reports inserted.
\<close>

definition Tree_insertMulti :: "('k, 'v) node \<Rightarrow> ('k, 'v) Tree \<Rightarrow> InsertionResult \<times> ('k, 'v) Tree" where
  "Tree_insertMulti n T =
     (let p = upper_path (compare T) (node_key n) (root T) [] in
      (\<lparr>wasInserted = True, iterator = At (node_id n)\<rparr>,
       T\<lparr>root := link_node n p, tsize := tsize T + 1\<rparr>))"

text \<open>
  Modelled from the spec: \<^verbatim>\<open>insertOrReplace(node)\<close>. If an equal key exists its value is
  replaced in place and the result is a cursor to that node with \<open>wasInserted\<close> false;
  otherwise it behaves like \<open>insertUnique\<close>.
\<close>

definition Tree_insertOrReplace :: "('k, 'v) node \<Rightarrow> ('k, 'v) Tree \<Rightarrow> InsertionResult \<times> ('k, 'v) Tree" where
  "Tree_insertOrReplace n T =
     (case find_path (compare T) (node_key n) (root T) [] of
        (Leaf, p) \<Rightarrow>
          (\<lparr>wasInserted = True, iterator = At (node_id n)\<rparr>,
           T\<lparr>root := link_node n p, tsize := tsize T + 1\<rparr>)
      | (Node c l m r, p) \<Rightarrow>
          (\<lparr>wasInserted = False, iterator = At (node_id m)\<rparr>,
           T\<lparr>root := plug (Node c l (m\<lparr>node_value := node_value n\<rparr>) r) p\<rparr>))"

subsection \<open>Removal\<close>

text \<open>
  Modelled from the spec: delete-fixup. \<open>x\<close> is the subtree at the point of deficiency
  (its Black count is one short) and the path leads from it to the root. A Red \<open>x\<close>
  absorbs the deficiency by becoming Black, and so does the root. Otherwise, with
  \<open>s\<close> the sibling:
  (1) \<open>s\<close> is Red: rotate at the parent towards \<open>x\<close> (the parent becomes Red, \<open>s\<close>
      Black and the new grandparent) and retry with the new sibling;
  (2) \<open>s\<close> is Black with two Black children: \<open>s\<close> becomes Red and the deficiency moves
      to the parent;
  (3) the near nephew is Red and the far nephew Black: rotate at the sibling, which
      gives case (4);
  (4) the far nephew is Red: rotate at the parent; the sibling takes the parent's
      colour, the parent and the far nephew become Black; the deficiency is resolved.
  An absent sibling counts as a Black sibling with Black children.
\<close>

text \<open>
  \<open>path_weight\<close> is the measure by which the loop ends: case (1) splits the sibling's
  subtree over two frames, every other continuing case drops a frame. \<open>fix_far_left\<close>
  and \<open>fix_far_right\<close> are case (4) for \<open>x\<close> on the left and on the right of its parent
  \<open>p\<close>, whose colour is \<open>c\<close>.
\<close>

definition path_weight :: "('k, 'v) path \<Rightarrow> nat" where
  "path_weight p = sum_list (map (\<lambda>f. case f of Frame d c n s \<Rightarrow> 2 * count s + 1) p)"

fun fix_far_left :: "color \<Rightarrow> ('k, 'v) rbt \<Rightarrow> ('k, 'v) node \<Rightarrow> ('k, 'v) rbt \<Rightarrow> ('k, 'v) rbt" where
  "fix_far_left c x p (Node cs sl sn sr) =
     rotate_left (Node BLACK x p (Node c sl sn (paint BLACK sr)))"
| "fix_far_left c x p Leaf = Node c x p Leaf"

fun fix_far_right :: "color \<Rightarrow> ('k, 'v) rbt \<Rightarrow> ('k, 'v) node \<Rightarrow> ('k, 'v) rbt \<Rightarrow> ('k, 'v) rbt" where
  "fix_far_right c x p (Node cs sl sn sr) =
     rotate_right (Node BLACK (Node c (paint BLACK sl) sn sr) p x)"
| "fix_far_right c x p Leaf = Node c Leaf p x"

function delete_fixup :: "('k, 'v) rbt \<Rightarrow> ('k, 'v) path \<Rightarrow> ('k, 'v) rbt" where
  "delete_fixup x [] = paint BLACK x"
| "delete_fixup x (Frame d c p s # path) =
     (if color_of x = RED then plug (paint BLACK x) (Frame d c p s # path)
      else (case s of
          Leaf \<Rightarrow> delete_fixup (plug1 x (Frame d c p Leaf)) path
        | Node cs sl sn sr \<Rightarrow>
            if cs = RED then
              (case d of
                 Lft \<Rightarrow> delete_fixup x (Frame Lft RED p sl # Frame Lft BLACK sn sr # path)
               | Rgt \<Rightarrow> delete_fixup x (Frame Rgt RED p sr # Frame Rgt BLACK sn sl # path))
            else if color_of sl = BLACK \<and> color_of sr = BLACK then
              delete_fixup (plug1 x (Frame d c p (Node RED sl sn sr))) path
            else
              (case d of
                 Lft \<Rightarrow>
                   plug (fix_far_left c x p
                          (if color_of sr = BLACK
                           then rotate_right (Node RED (paint BLACK sl) sn sr)
                           else Node cs sl sn sr)) path
               | Rgt \<Rightarrow>
                   plug (fix_far_right c x p
                          (if color_of sl = BLACK
                           then rotate_left (Node RED sl sn (paint BLACK sr))
                           else Node cs sl sn sr)) path)))"
  by pat_completeness auto
termination
  by (relation "measure (\<lambda>(x, p). path_weight p)") (auto simp: path_weight_def)

text \<open>
  Modelled from the spec: structural removal. A node with at most one child is
  replaced by that child. A node with two children changes places with its in-order
  successor, the leftmost node of its right subtree (each of the two takes the
  other's position and colour), and is then removed from there, where it has no left
  child. If the position that was vacated held a Black node, delete-fixup runs from
  it.
\<close>

definition unlink :: "color \<Rightarrow> ('k, 'v) rbt \<Rightarrow> ('k, 'v) path \<Rightarrow> ('k, 'v) rbt" where
  "unlink c x p = (if c = BLACK then delete_fixup x p else plug x p)"

fun erase_at :: "('k, 'v) rbt \<Rightarrow> ('k, 'v) path \<Rightarrow> ('k, 'v) rbt" where
  "erase_at Leaf p = plug Leaf p"
| "erase_at (Node c l z r) p =
     (if l = Leaf then unlink c r p
      else if r = Leaf then unlink c l p
      else (case min_path r [] of
              (Node cy yl y yr, q) \<Rightarrow> unlink cy yr (q @ Frame Rgt c y l # p)
            | (Leaf, q) \<Rightarrow> plug (Node c l z r) p))"

text \<open>
  Modelled from the spec: the node that \<^verbatim>\<open>erase(node)\<close> is given. The caller holds the
  node object; its place in the tree is where the object is linked. In the shape that
  place is found by the object's address.
\<close>

fun path_to :: "addr \<Rightarrow> ('k, 'v) rbt \<Rightarrow> ('k, 'v) path \<Rightarrow> (('k, 'v) rbt \<times> ('k, 'v) path) option" where
  "path_to a Leaf p = None"
| "path_to a (Node c l n r) p =
     (if node_id n = a then Some (Node c l n r, p)
      else (case path_to a l (Frame Lft c n r # p) of
              Some zp \<Rightarrow> Some zp
            | None \<Rightarrow> path_to a r (Frame Rgt c n l # p)))"

text \<open>
  Modelled from the spec: \<^verbatim>\<open>erase(node)\<close> removes that node and decrements the size.
  Erasing a node that is not in the tree is a precondition violation (section 7); the
  tree is then left as it was.
\<close>

definition Tree_erase :: "addr \<Rightarrow> ('k, 'v) Tree \<Rightarrow> error + ('k, 'v) Tree" where
  "Tree_erase a T =
     (case path_to a (root T) [] of
        None \<Rightarrow> Inl Precondition
      | Some (z, p) \<Rightarrow> Inr (T\<lparr>root := erase_at z p, tsize := tsize T - 1\<rparr>))"

section \<open>The set container (src/public/tree-set.js)\<close>

text \<open>
  A \<^verbatim>\<open>TreeSet\<close> holds its tree in the field \<^verbatim>\<open>__t\<close>. Its nodes carry keys only.
  \<open>next_addr\<close> is the address that the next \<^verbatim>\<open>new TreeNode()\<close> returns: every
  allocation yields an object distinct from all earlier ones.
\<close>

record 'k TreeSet =
  tree :: "('k, unit) Tree"
  next_addr :: addr

text \<open>
  \<^verbatim>\<open>let n = new TreeNode(); n.key = key;\<close>
  The object is new, so its address is \<open>next_addr\<close>. What the constructor sets beside
  the key, the colour \<^verbatim>\<open>RED\<close> and the \<^verbatim>\<open>null\<close> links, is the Red node without
  children that the tree links when it inserts the node.
\<close>

definition new_node :: "'k \<Rightarrow> 'k TreeSet \<Rightarrow> ('k, unit) node \<times> 'k TreeSet" where
  "new_node k S =
     (\<lparr>node_id = next_addr S, node_key = k, node_value = None\<rparr>,
      S\<lparr>next_addr := Suc (next_addr S)\<rparr>)"

text \<open>\<^verbatim>\<open>add(key) { let n = new TreeNode(); n.key = key; this.__t.insertUnique(n); }\<close>\<close>

definition add :: "'k \<Rightarrow> 'k TreeSet \<Rightarrow> 'k TreeSet" where
  "add k S =
     (case new_node k S of (n, S') \<Rightarrow> S'\<lparr>tree := snd (Tree_insertUnique n (tree S'))\<rparr>)"

text \<open>\<^verbatim>\<open>insertUnique(key) { let n = new TreeNode(); n.key = key; return this.__t.insertUnique(n); }\<close>\<close>

definition TreeSet_insertUnique :: "'k \<Rightarrow> 'k TreeSet \<Rightarrow> InsertionResult \<times> 'k TreeSet" where
  "TreeSet_insertUnique k S =
     (case new_node k S of (n, S') \<Rightarrow>
        (case Tree_insertUnique n (tree S') of (res, T') \<Rightarrow> (res, S'\<lparr>tree := T'\<rparr>)))"

text \<open>\<^verbatim>\<open>insertOrReplace(key) { let n = new TreeNode(); n.key = key; return this.__t.insertOrReplace(n); }\<close>\<close>

definition TreeSet_insertOrReplace :: "'k \<Rightarrow> 'k TreeSet \<Rightarrow> InsertionResult \<times> 'k TreeSet" where
  "TreeSet_insertOrReplace k S =
     (case new_node k S of (n, S') \<Rightarrow>
        (case Tree_insertOrReplace n (tree S') of (res, T') \<Rightarrow> (res, S'\<lparr>tree := T'\<rparr>)))"

text \<open>\<^verbatim>\<open>clear() { this.__t.clear(); }\<close>\<close>

definition clear :: "'k TreeSet \<Rightarrow> 'k TreeSet" where
  "clear S = S\<lparr>tree := Tree_clear (tree S)\<rparr>"

text \<open>\<^verbatim>\<open>get size() { return this.__t.size(); }\<close>\<close>

definition TreeSet_size :: "'k TreeSet \<Rightarrow> nat" where
  "TreeSet_size S = Tree_size (tree S)"

text \<open>\<^verbatim>\<open>begin()\<close>, \<^verbatim>\<open>end()\<close>, \<^verbatim>\<open>find(key)\<close>, \<^verbatim>\<open>lowerBound(key)\<close> and \<^verbatim>\<open>upperBound(key)\<close>
  return what the tree's method of the same name returns.\<close>

definition TreeSet_begin :: "'k TreeSet \<Rightarrow> cursor" where
  "TreeSet_begin S = Tree_begin (tree S)"

definition TreeSet_end :: "'k TreeSet \<Rightarrow> cursor" where
  "TreeSet_end S = Tree_end (tree S)"

definition TreeSet_find :: "'k \<Rightarrow> 'k TreeSet \<Rightarrow> cursor" where
  "TreeSet_find k S = Tree_find k (tree S)"

definition lowerBound :: "'k \<Rightarrow> 'k TreeSet \<Rightarrow> cursor" where
  "lowerBound k S = Tree_lowerBound k (tree S)"

definition upperBound :: "'k \<Rightarrow> 'k TreeSet \<Rightarrow> cursor" where
  "upperBound k S = Tree_upperBound k (tree S)"

text \<open>
  \<^verbatim>\<open>has(key) { let it = this.__t.find(key);
     if (!it.equals(this.__t.end())) { return true; } else { return false; } }\<close>
\<close>

definition has :: "'k \<Rightarrow> 'k TreeSet \<Rightarrow> bool" where
  "has k S =
     (let it = Tree_find k (tree S) in
      if \<not> equals it (Tree_end (tree S)) then True else False)"

text \<open>
  \<^verbatim>\<open>erase(iterator) { this.__t.erase(iterator.node); }\<close>
  The node of the end cursor is not a node of the tree.
\<close>

definition TreeSet_erase :: "cursor \<Rightarrow> 'k TreeSet \<Rightarrow> error + 'k TreeSet" where
  "TreeSet_erase it S =
     (case it of
        End \<Rightarrow> Inl Precondition
      | At a \<Rightarrow> (case Tree_erase a (tree S) of
                   Inl e \<Rightarrow> Inl e
                 | Inr T' \<Rightarrow> Inr (S\<lparr>tree := T'\<rparr>)))"

text \<open>
  \<^verbatim>\<open>delete(key) { let it = this.__t.find(key);
     if (!it.equals(this.__t.end())) { this.__t.erase(it.node); } }\<close>
\<close>

definition delete :: "'k \<Rightarrow> 'k TreeSet \<Rightarrow> error + 'k TreeSet" where
  "delete k S =
     (let it = Tree_find k (tree S) in
      if \<not> equals it (Tree_end (tree S)) then TreeSet_erase it S
      else Inr S)"

text \<open>\<^verbatim>\<open>set compareFunc(func) { this.clear(); this.__t.compare = func; }\<close>\<close>

definition set_compareFunc :: "('k \<Rightarrow> 'k \<Rightarrow> int) \<Rightarrow> 'k TreeSet \<Rightarrow> 'k TreeSet" where
  "set_compareFunc func S =
     (let S' = clear S in S'\<lparr>tree := (tree S')\<lparr>compare := func\<rparr>\<rparr>)"

text \<open>
  The argument of the constructor, as far as the constructor inspects it:
  \<^verbatim>\<open>undefined\<close>, \<^verbatim>\<open>null\<close>, a value whose \<^verbatim>\<open>Symbol.iterator\<close> property is undefined, or
  an iterable, given by the elements its iterator yields.
\<close>

datatype 'k js_value = Undefined | Null | NotIterable | Iterable "'k list"

text \<open>
  \<^verbatim>\<open>constructor(iterable) { this.__t = new Tree(); this.__t.valuePolicy = new KeyOnlyPolicy();
     if ((iterable !== undefined) && (iterable !== null)) {
       if (iterable[Symbol.iterator] !== undefined) { for (let k of iterable) { this.add(k); } }
       else { throw new Error('TreeSet constructor accepts only iterable objects'); } } }\<close>
  The comparator that \<^verbatim>\<open>new Tree()\<close> installs is defined in a file that is not among
  the sources; it is the parameter \<open>cmp\<close>.
\<close>

fun add_all :: "'k list \<Rightarrow> 'k TreeSet \<Rightarrow> 'k TreeSet" where
  "add_all [] S = S"
| "add_all (k # ks) S = add_all ks (add k S)"

definition TreeSet_new :: "('k \<Rightarrow> 'k \<Rightarrow> int) \<Rightarrow> 'k js_value \<Rightarrow> error + 'k TreeSet" where
  "TreeSet_new cmp iterable =
     (let this = \<lparr>tree = Tree_new cmp, next_addr = 0\<rparr> in
      if iterable \<noteq> Undefined \<and> iterable \<noteq> Null then
        (case iterable of
           Iterable ks \<Rightarrow> Inr (add_all ks this)
         | _ \<Rightarrow> Inl (Error ''TreeSet constructor accepts only iterable objects''))
      else Inr this)"

text \<open>\<^verbatim>\<open>[Symbol.iterator]() { return this.__t[Symbol.iterator](); }\<close>: the keys in
  traversal order.\<close>

definition TreeSet_keys :: "'k TreeSet \<Rightarrow> 'k list" where
  "TreeSet_keys S = Tree_keys (tree S)"

section \<open>Invariants and reachable states\<close>

subsection \<open>The red-black invariants\<close>

text \<open>
  The number of Black nodes on each path from the root of a subtree down to an absent
  child, one entry per path, and the subtrees of a tree, one per node and one per
  absent child.
\<close>

fun black_counts :: "('k, 'v) rbt \<Rightarrow> nat list" where
  "black_counts Leaf = [0]"
| "black_counts (Node c l n r) =
     map (\<lambda>h. if c = BLACK then Suc h else h) (black_counts l @ black_counts r)"

fun subtrees :: "('k, 'v) rbt \<Rightarrow> ('k, 'v) rbt list" where
  "subtrees Leaf = [Leaf]"
| "subtrees (Node c l n r) = Node c l n r # subtrees l @ subtrees r"

text \<open>Invariant 4: below every node, all paths to absent children have the same
  number of Black nodes.\<close>

definition uniform_black :: "('k, 'v) rbt \<Rightarrow> bool" where
  "uniform_black t =
     (\<forall>s \<in> set (subtrees t). \<forall>a \<in> set (black_counts s). \<forall>b \<in> set (black_counts s). a = b)"

text \<open>Invariant 3: a Red node never has a Red child.\<close>

fun no_red_red :: "('k, 'v) rbt \<Rightarrow> bool" where
  "no_red_red Leaf = True"
| "no_red_red (Node c l n r) =
     ((c = RED \<longrightarrow> color_of l = BLACK \<and> color_of r = BLACK) \<and> no_red_red l \<and> no_red_red r)"

text \<open>The black height, read along the leftmost path, and the recursive form of
  invariant 4.\<close>

fun bh :: "('k, 'v) rbt \<Rightarrow> nat" where
  "bh Leaf = 0"
| "bh (Node c l n r) = (if c = BLACK then Suc (bh l) else bh l)"

fun balanced :: "('k, 'v) rbt \<Rightarrow> bool" where
  "balanced Leaf = True"
| "balanced (Node c l n r) = (bh l = bh r \<and> balanced l \<and> balanced r)"

text \<open>
  The same two invariants for a path: what the ancestors and their other subtrees must
  satisfy so that the whole tree is balanced, given the black height \<open>h\<close> of the subtree
  at the position, and so that no Red ancestor has a Red child among the ancestors and
  their other subtrees.
\<close>

fun path_balanced :: "nat \<Rightarrow> ('k, 'v) path \<Rightarrow> bool" where
  "path_balanced h [] = True"
| "path_balanced h (Frame d c n s # fs) =
     (bh s = h \<and> balanced s \<and> path_balanced (if c = BLACK then Suc h else h) fs)"

fun top_color :: "('k, 'v) path \<Rightarrow> color" where
  "top_color [] = BLACK"
| "top_color (Frame d c n s # fs) = c"

fun path_no_red_red :: "('k, 'v) path \<Rightarrow> bool" where
  "path_no_red_red [] = True"
| "path_no_red_red (Frame d c n s # fs) =
     (no_red_red s \<and> (c = RED \<longrightarrow> color_of s = BLACK \<and> top_color fs = BLACK)
      \<and> path_no_red_red fs)"

text \<open>The colour of the root of the tree a path leads to (Black for the empty path).\<close>

fun root_color :: "('k, 'v) path \<Rightarrow> color" where
  "root_color [] = BLACK"
| "root_color [Frame d c n s] = c"
| "root_color (f # fs) = root_color fs"

subsection \<open>Comparators\<close>

text \<open>
  A three-way comparison function of a total order: swapping the arguments swaps the
  sign, and ``not greater'' is transitive. Keys that compare as 0 are equal keys.
\<close>

definition valid_compare :: "('k \<Rightarrow> 'k \<Rightarrow> int) \<Rightarrow> bool" where
  "valid_compare cmp =
     ((\<forall>a b. (cmp a b < 0) = (cmp b a > 0))
      \<and> (\<forall>a b c. cmp a b \<le> 0 \<and> cmp b c \<le> 0 \<longrightarrow> cmp a c \<le> 0))"

text \<open>The three-way comparison of numbers, the comparator of the examples.\<close>

definition compare_int :: "int \<Rightarrow> int \<Rightarrow> int" where
  "compare_int a b = (if a < b then - 1 else if b < a then 1 else 0)"

text \<open>The order of two nodes by their keys, not strict and strict.\<close>

definition key_le :: "('k \<Rightarrow> 'k \<Rightarrow> int) \<Rightarrow> ('k, 'v) node \<Rightarrow> ('k, 'v) node \<Rightarrow> bool" where
  "key_le cmp a b = (cmp (node_key a) (node_key b) \<le> 0)"

definition key_lt :: "('k \<Rightarrow> 'k \<Rightarrow> int) \<Rightarrow> ('k, 'v) node \<Rightarrow> ('k, 'v) node \<Rightarrow> bool" where
  "key_lt cmp a b = (cmp (node_key a) (node_key b) < 0)"

subsection \<open>Reachable states\<close>

text \<open>
  The states of a tree with comparator \<open>cmp\<close> that sequences of the public mutating
  operations produce from the empty tree. A container with the unique-key policy never
  calls \<open>insertMulti\<close>. A node handed to an insert operation is a new object, distinct
  from every node of the tree.
\<close>

datatype policy = Unique | Multi

inductive reachable :: "policy \<Rightarrow> ('k \<Rightarrow> 'k \<Rightarrow> int) \<Rightarrow> ('k, 'v) Tree \<Rightarrow> bool"
  for pol :: policy and cmp :: "'k \<Rightarrow> 'k \<Rightarrow> int" where
  reach_new: "reachable pol cmp (Tree_new cmp)"
| reach_insertUnique:
    "reachable pol cmp T \<Longrightarrow> node_id n \<notin> node_id ` set (Tree_entries T)
     \<Longrightarrow> reachable pol cmp (snd (Tree_insertUnique n T))"
| reach_insertMulti:
    "reachable pol cmp T \<Longrightarrow> pol = Multi \<Longrightarrow> node_id n \<notin> node_id ` set (Tree_entries T)
     \<Longrightarrow> reachable pol cmp (snd (Tree_insertMulti n T))"
| reach_insertOrReplace:
    "reachable pol cmp T \<Longrightarrow> node_id n \<notin> node_id ` set (Tree_entries T)
     \<Longrightarrow> reachable pol cmp (snd (Tree_insertOrReplace n T))"
| reach_erase:
    "reachable pol cmp T \<Longrightarrow> Tree_erase a T = Inr T' \<Longrightarrow> reachable pol cmp T'"
| reach_clear:
    "reachable pol cmp T \<Longrightarrow> reachable pol cmp (Tree_clear T)"

text \<open>
  The states of a set that its constructor and its mutating methods produce, with
  three-way comparison functions for the comparator.
\<close>

inductive set_reachable :: "'k TreeSet \<Rightarrow> bool" where
  sreach_new: "valid_compare cmp \<Longrightarrow> TreeSet_new cmp v = Inr S \<Longrightarrow> set_reachable S"
| sreach_add: "set_reachable S \<Longrightarrow> set_reachable (add k S)"
| sreach_insertUnique: "set_reachable S \<Longrightarrow> set_reachable (snd (TreeSet_insertUnique k S))"
| sreach_insertOrReplace: "set_reachable S \<Longrightarrow> set_reachable (snd (TreeSet_insertOrReplace k S))"
| sreach_delete: "set_reachable S \<Longrightarrow> delete k S = Inr S' \<Longrightarrow> set_reachable S'"
| sreach_erase: "set_reachable S \<Longrightarrow> TreeSet_erase it S = Inr S' \<Longrightarrow> set_reachable S'"
| sreach_clear: "set_reachable S \<Longrightarrow> set_reachable (clear S)"
| sreach_compareFunc:
    "set_reachable S \<Longrightarrow> valid_compare func \<Longrightarrow> set_reachable (set_compareFunc func S)"

text \<open>The three red-black invariants of a tree, with invariant 4 in its recursive form.\<close>

definition red_black :: "('k, 'v) rbt \<Rightarrow> bool" where
  "red_black t = (color_of t = BLACK \<and> no_red_red t \<and> balanced t)"

text \<open>
  What the order of the keys, the identity of the nodes and the size counter satisfy in
  every reachable state: the traversal is in non-decreasing key order, strictly
  increasing under the unique-key policy; no node occurs twice; the counter is the
  number of nodes.
\<close>

definition tree_inv :: "policy \<Rightarrow> ('k \<Rightarrow> 'k \<Rightarrow> int) \<Rightarrow> ('k, 'v) Tree \<Rightarrow> bool" where
  "tree_inv pol cmp T =
     (compare T = cmp
      \<and> sorted_wrt (key_le cmp) (inorder (root T))
      \<and> (pol = Unique \<longrightarrow> sorted_wrt (key_lt cmp) (inorder (root T)))
      \<and> distinct (map node_id (inorder (root T)))
      \<and> tsize T = count (root T))"

text \<open>
  What holds of a set in every reachable state: its comparator is a three-way comparison
  function, its tree is a reachable state of a unique-key tree, and every node of the
  tree was allocated before \<open>next_addr\<close>.
\<close>

definition set_inv :: "'k TreeSet \<Rightarrow> bool" where
  "set_inv S =
     (valid_compare (compare (tree S)) \<and> reachable Unique (compare (tree S)) (tree S)
      \<and> (\<forall>n\<in>set (inorder (root (tree S))). node_id n < next_addr S))"

subsection \<open>Examples\<close>

text \<open>
  A tree with the keys 1, 3, 3, 5, built with all three insert operations (the last
  one finds the key 3 present), and the set built from the elements 5, 1, 3, 2, 4.
\<close>

definition example_tree :: "(int, unit) Tree" where
  "example_tree =
     snd (Tree_insertOrReplace \<lparr>node_id = 4, node_key = 3, node_value = None\<rparr>
     (snd (Tree_insertMulti \<lparr>node_id = 3, node_key = 3, node_value = None\<rparr>
     (snd (Tree_insertUnique \<lparr>node_id = 2, node_key = 3, node_value = None\<rparr>
     (snd (Tree_insertUnique \<lparr>node_id = 1, node_key = 1, node_value = None\<rparr>
     (snd (Tree_insertUnique \<lparr>node_id = 0, node_key = 5, node_value = None\<rparr>
       (Tree_new compare_int))))))))))"

definition example_set :: "int TreeSet" where
  "example_set = add_all [5, 1, 3, 2, 4] \<lparr>tree = Tree_new compare_int, next_addr = 0\<rparr>"

section \<open>Properties of the tree engine\<close>

subsection \<open>Paths\<close>

lemma color_neq [simp]: "(c \<noteq> BLACK) = (c = RED)" "(c \<noteq> RED) = (c = BLACK)"
  by (cases c; simp)+

lemma plug_append: "plug t (p @ q) = plug (plug t p) q"
  by (induction p arbitrary: t) auto

lemma inorder_plug: "inorder (plug t p) = path_before p @ inorder t @ path_after p"
proof (induction p arbitrary: t)
  case Nil
  then show ?case by simp
next
  case (Cons f fs)
  show ?case
    by (cases "(t, f)" rule: plug1.cases) (auto simp: Cons.IH)
qed

lemma count_inorder: "count t = length (inorder t)"
  by (induction t) auto

lemma bh_paint_BLACK: "bh (paint BLACK t) = (if color_of t = RED then Suc (bh t) else bh t)"
  by (cases t) auto

lemma balanced_paint [simp]: "balanced (paint c t) = balanced t"
  by (cases t) auto

lemma no_red_red_paint_BLACK: "no_red_red t \<Longrightarrow> no_red_red (paint BLACK t)"
  by (cases t) auto

lemma color_of_paint_BLACK [simp]: "color_of (paint BLACK t) = BLACK"
  by (cases t) auto

lemma inorder_paint [simp]: "inorder (paint c t) = inorder t"
  by (cases t) auto

lemma bh_plug1:
  "bh s = bh t \<Longrightarrow> bh (plug1 t (Frame d c n s)) = (if c = BLACK then Suc (bh t) else bh t)"
  by (cases d) auto

lemma balanced_plug1:
  "balanced (plug1 t (Frame d c n s)) = (bh s = bh t \<and> balanced s \<and> balanced t)"
  by (cases d) auto

lemma no_red_red_plug1:
  "no_red_red (plug1 t (Frame d c n s)) =
     ((c = RED \<longrightarrow> color_of t = BLACK \<and> color_of s = BLACK) \<and> no_red_red t \<and> no_red_red s)"
  by (cases d) auto

lemma color_of_plug1 [simp]: "color_of (plug1 t (Frame d c n s)) = c"
  by (cases d) auto

lemma balanced_plug: "balanced (plug t p) = (balanced t \<and> path_balanced (bh t) p)"
proof (induction p arbitrary: t)
  case Nil
  then show ?case by simp
next
  case (Cons f fs)
  obtain d c n s where f: "f = Frame d c n s" by (cases f)
  show ?case unfolding f
    by (cases d) (auto simp: Cons.IH)
qed

lemma no_red_red_plug:
  "no_red_red (plug t p) =
     (no_red_red t \<and> path_no_red_red p \<and> (top_color p = RED \<longrightarrow> color_of t = BLACK))"
proof (induction p arbitrary: t)
  case Nil
  then show ?case by simp
next
  case (Cons f fs)
  obtain d c n s where f: "f = Frame d c n s" by (cases f)
  show ?case unfolding f
    by (cases d) (auto simp: Cons.IH)
qed

lemma root_color_Cons:
  "root_color (Frame d c n s # fs) = (if fs = [] then c else root_color fs)"
  by (cases fs) auto

lemma color_of_plug: "color_of (plug t p) = (if p = [] then color_of t else root_color p)"
proof (induction p arbitrary: t)
  case Nil
  then show ?case by simp
next
  case (Cons f fs)
  obtain d c n s where f: "f = Frame d c n s" by (cases f)
  show ?case unfolding f
    by (cases d) (auto simp: Cons.IH root_color_Cons)
qed

subsection \<open>Insertion keeps the red-black invariants\<close>

lemma inorder_rotate_left [simp]: "inorder (rotate_left t) = inorder t"
  by (cases t rule: rotate_left.cases) auto

lemma inorder_rotate_right [simp]: "inorder (rotate_right t) = inorder t"
  by (cases t rule: rotate_right.cases) auto

lemma inorder_rotate [simp]: "inorder (rotate d t) = inorder t"
  by (cases d) auto

lemma inorder_insert_fixup: "inorder (insert_fixup z p) = inorder (plug z p)"
proof (induction z p rule: insert_fixup.induct)
  case (1 z d p s d' cg g u path)
  show ?case
    using 1 by (cases d; cases d') (auto simp: inorder_plug Let_def)
qed simp_all

lemma insert_fixup_inv:
  "color_of z = RED \<Longrightarrow> no_red_red z \<Longrightarrow> balanced z \<Longrightarrow> path_balanced (bh z) p
   \<Longrightarrow> path_no_red_red p
   \<Longrightarrow> balanced (insert_fixup z p) \<and> no_red_red (paint BLACK (insert_fixup z p))"
proof (induction z p rule: insert_fixup.induct)
  case (1 z d p s d' cg g u path)
  obtain zl zn zr where z: "z = Node RED zl zn zr"
    using "1.prems"(1) by (cases z) auto
  have cg: "cg = BLACK" and s: "color_of s = BLACK"
    using "1.prems"(5) by auto
  show ?case
  proof (cases "color_of u = RED")
    case True
    then obtain ul un ur where u: "u = Node RED ul un ur" by (cases u) auto
    let ?z' = "plug1 (plug1 z (Frame d BLACK p s)) (Frame d' RED g (paint BLACK u))"
    have "balanced (insert_fixup ?z' path) \<and> no_red_red (paint BLACK (insert_fixup ?z' path))"
    proof (rule "1.IH"[OF True])
      show "color_of ?z' = RED" by (cases d') auto
      show "no_red_red ?z'" using "1.prems" s by (cases d; cases d') (auto simp: z u)
      show "balanced ?z'" using "1.prems" by (cases d; cases d') (auto simp: z u cg)
      show "path_balanced (bh ?z') path" using "1.prems" by (cases d; cases d') (auto simp: z u cg)
      show "path_no_red_red path" using "1.prems" by auto
    qed
    then show ?thesis using True by simp
  next
    case False
    then have ub: "color_of u = BLACK" by simp
    show ?thesis
      using "1.prems" ub s
      by (cases d; cases d')
         (auto simp: z cg Let_def balanced_plug no_red_red_plug no_red_red_paint_BLACK
               split: if_splits)
  qed
next
  case (2 z)
  then show ?case by (simp add: no_red_red_paint_BLACK)
next
  case (3 z d p s path)
  then show ?case
    by (auto simp: balanced_plug no_red_red_plug balanced_plug1 no_red_red_plug1 bh_plug1
             intro!: no_red_red_paint_BLACK)
next
  case (4 z d p s)
  then show ?case by (cases d) auto
qed

subsection \<open>Removal keeps the red-black invariants\<close>

lemma paint_BLACK_id: "color_of x = BLACK \<Longrightarrow> paint BLACK x = x"
  by (cases x) auto

declare delete_fixup.simps [simp del]

lemma delete_fixup_Nil [simp]: "delete_fixup x [] = paint BLACK x"
  by (simp add: delete_fixup.simps)

lemma delete_fixup_inv:
  "balanced x \<Longrightarrow> no_red_red (paint BLACK x) \<Longrightarrow> path_balanced (Suc (bh x)) p
   \<Longrightarrow> path_no_red_red p \<Longrightarrow> root_color p = BLACK
   \<Longrightarrow> balanced (delete_fixup x p) \<and> no_red_red (delete_fixup x p)
       \<and> color_of (delete_fixup x p) = BLACK"
proof (induction x p rule: delete_fixup.induct)
  case (1 x)
  then show ?case by simp
next
  case (2 x d c p s path)
  note unfold = delete_fixup.simps(2)[of x d c p s path]
  show ?case
  proof (cases "color_of x = RED")
    case True
    then show ?thesis
      unfolding unfold
      using "2.prems"
      by (auto simp: balanced_plug no_red_red_plug balanced_plug1 no_red_red_plug1 bh_plug1
            bh_paint_BLACK color_of_plug root_color_Cons)
  next
    case False
    then have xb: "color_of x = BLACK" by simp
    then have px: "paint BLACK x = x" by (rule paint_BLACK_id)
    obtain cs sl sn sr where s: "s = Node cs sl sn sr"
      using "2.prems"(3) by (cases s) auto
    show ?thesis
    proof (cases "cs = RED")
      case True
      have c: "c = BLACK" using "2.prems"(4) True s by auto
      show ?thesis
      proof (cases d)
        case Lft
        have "balanced (delete_fixup x (Frame Lft RED p sl # Frame Lft BLACK sn sr # path))
          \<and> no_red_red (delete_fixup x (Frame Lft RED p sl # Frame Lft BLACK sn sr # path))
          \<and> color_of (delete_fixup x (Frame Lft RED p sl # Frame Lft BLACK sn sr # path)) = BLACK"
          using "2.prems" True s c Lft
          by (intro "2.IH"(2)[OF False s True Lft]) (auto simp: root_color_Cons)
        then show ?thesis unfolding unfold using False s True Lft by simp
      next
        case Rgt
        have "balanced (delete_fixup x (Frame Rgt RED p sr # Frame Rgt BLACK sn sl # path))
          \<and> no_red_red (delete_fixup x (Frame Rgt RED p sr # Frame Rgt BLACK sn sl # path))
          \<and> color_of (delete_fixup x (Frame Rgt RED p sr # Frame Rgt BLACK sn sl # path)) = BLACK"
          using "2.prems" True s c Rgt
          by (intro "2.IH"(3)[OF False s True Rgt]) (auto simp: root_color_Cons)
        then show ?thesis unfolding unfold using False s True Rgt by simp
      qed
    next
      case False
      then have cs: "cs = BLACK" by simp
      show ?thesis
      proof (cases "color_of sl = BLACK \<and> color_of sr = BLACK")
        case True
        let ?x' = "plug1 x (Frame d c p (Node RED sl sn sr))"
        have "balanced (delete_fixup ?x' path) \<and> no_red_red (delete_fixup ?x' path)
          \<and> color_of (delete_fixup ?x' path) = BLACK"
          using "2.prems" True s cs px
          by (intro "2.IH"(4)[OF \<open>color_of x \<noteq> RED\<close> s False True])
             (cases d; auto simp: root_color_Cons split: if_splits)+
        then show ?thesis unfolding unfold using \<open>color_of x \<noteq> RED\<close> s cs True by simp
      next
        case False
        show ?thesis
          unfolding unfold
          using "2.prems" False s cs px xb
          apply (cases d; cases sl; cases sr)
          apply (auto simp: balanced_plug no_red_red_plug balanced_plug1 no_red_red_plug1 bh_plug1
            bh_paint_BLACK color_of_plug root_color_Cons split: if_splits)
          done
      qed
    qed
  qed
qed

lemma inorder_fix_far_left [simp]: "inorder (fix_far_left c x p s) = inorder x @ p # inorder s"
  by (cases s) auto

lemma inorder_fix_far_right [simp]: "inorder (fix_far_right c x p s) = inorder s @ p # inorder x"
  by (cases s) auto

lemma inorder_delete_fixup: "inorder (delete_fixup x p) = inorder (plug x p)"
proof (induction x p rule: delete_fixup.induct)
  case (1 x)
  then show ?case by simp
next
  case (2 x d c p s path)
  note unfold = delete_fixup.simps(2)[of x d c p s path]
  show ?case
    unfolding unfold using 2
    by (cases d) (auto simp: inorder_plug split: rbt.splits)
qed

lemma path_to_plug: "path_to a t p = Some (z, q) \<Longrightarrow> plug z q = plug t p"
  by (induction t arbitrary: p) (auto split: if_splits option.splits)

lemma path_to_Node:
  "path_to a t p = Some (z, q) \<Longrightarrow> \<exists>c l n r. z = Node c l n r \<and> node_id n = a"
  by (induction t arbitrary: p) (auto split: if_splits option.splits)

lemma path_to_None_iff: "path_to a t p = None \<longleftrightarrow> a \<notin> node_id ` set (inorder t)"
proof (induction t arbitrary: p)
  case Leaf
  then show ?case by simp
next
  case (Node c l n r)
  show ?case
    using Node.IH(1)[of "Frame Lft c n r # p"] Node.IH(2)[of "Frame Rgt c n l # p"]
    by (auto split: option.splits)
qed

lemma min_path_plug: "min_path t p = (t', p') \<Longrightarrow> plug t' p' = plug t p"
  by (induction t p rule: min_path.induct) auto

lemma min_path_leftmost:
  "min_path t p = (t', p') \<Longrightarrow> t \<noteq> Leaf \<Longrightarrow> \<exists>c n r. t' = Node c Leaf n r"
  by (induction t p rule: min_path.induct) auto

lemma min_path_before: "min_path t p = (t', p') \<Longrightarrow> path_before p' = path_before p"
  by (induction t p rule: min_path.induct) auto

lemma path_balanced_append:
  "path_balanced h (q @ Frame d c n s # p) = path_balanced h (q @ Frame d c n' s # p)"
proof (induction q arbitrary: h)
  case Nil
  then show ?case by simp
next
  case (Cons f q)
  then show ?case by (cases f) auto
qed

lemma top_color_append: "top_color (q @ Frame d c n s # p) = top_color (q @ Frame d c n' s # p)"
  by (cases q rule: top_color.cases) auto

lemma path_no_red_red_append:
  "path_no_red_red (q @ Frame d c n s # p) = path_no_red_red (q @ Frame d c n' s # p)"
proof (induction q)
  case Nil
  then show ?case by simp
next
  case (Cons f q)
  show ?case using Cons top_color_append[of q d c n s p n'] by (cases f) auto
qed

lemma root_color_append:
  "root_color (q @ Frame d c n s # p) = root_color (q @ Frame d c n' s # p)"
proof (induction q)
  case Nil
  then show ?case by (simp add: root_color_Cons)
next
  case (Cons f q)
  then show ?case by (cases f) (auto simp: root_color_Cons)
qed

lemma unlink_red_black:
  assumes "balanced x" "no_red_red x" "bh x = 0"
    and "path_balanced (if c = BLACK then Suc 0 else 0) p" "path_no_red_red p"
    and "c = RED \<longrightarrow> color_of x = BLACK" "top_color p = RED \<longrightarrow> c = BLACK"
    and "(if p = [] then c else root_color p) = BLACK"
  shows "red_black (unlink c x p)"
proof (cases c)
  case RED
  then show ?thesis using assms
    by (auto simp: unlink_def red_black_def balanced_plug no_red_red_plug color_of_plug)
next
  case BLACK
  have "root_color p = BLACK" using assms(8) by (cases p) (auto split: if_splits)
  then show ?thesis using assms BLACK
    using delete_fixup_inv[of x p]
    by (auto simp: unlink_def red_black_def no_red_red_paint_BLACK)
qed

lemma erase_at_red_black:
  assumes "red_black (plug (Node c l z r) p)"
  shows "red_black (erase_at (Node c l z r) p)"
proof -
  have rc: "(if p = [] then c else root_color p) = BLACK"
    using assms by (auto simp: red_black_def color_of_plug split: if_splits)
  have inv: "balanced l" "balanced r" "bh l = bh r" "no_red_red l" "no_red_red r"
    "path_no_red_red p" "path_balanced (if c = BLACK then Suc (bh l) else bh l) p"
    "c = RED \<longrightarrow> color_of l = BLACK \<and> color_of r = BLACK"
    "top_color p = RED \<longrightarrow> c = BLACK"
    using assms by (auto simp: red_black_def balanced_plug no_red_red_plug)
  show ?thesis
  proof (cases "l = Leaf")
    case True
    then show ?thesis using inv rc by (auto intro!: unlink_red_black)
  next
    case lN: False
    show ?thesis
    proof (cases "r = Leaf")
      case True
      then show ?thesis using inv rc lN by (auto intro!: unlink_red_black)
    next
      case rN: False
      obtain y' q where mp: "min_path r [] = (y', q)" by (cases "min_path r []")
      then obtain cy y yr where y': "y' = Node cy Leaf y yr"
        using min_path_leftmost[OF mp rN] by auto
      have r: "r = plug (Node cy Leaf y yr) q"
        using min_path_plug[OF mp] y' by simp
      let ?P = "q @ Frame Rgt c z l # p"
      let ?P' = "q @ Frame Rgt c y l # p"
      have whole: "plug (Node c l z r) p = plug (Node cy Leaf y yr) ?P"
        by (simp add: plug_append r)
      have rcP: "root_color ?P' = BLACK"
        using assms unfolding whole
        by (auto simp: red_black_def color_of_plug root_color_append[of q Rgt c y l p z])
      have "red_black (unlink cy yr ?P')"
      proof (rule unlink_red_black)
        show "balanced yr" "no_red_red yr" "bh yr = 0" "cy = RED \<longrightarrow> color_of yr = BLACK"
          using assms unfolding whole
          by (auto simp: red_black_def balanced_plug no_red_red_plug)
        show "path_balanced (if cy = BLACK then Suc 0 else 0) ?P'"
          using assms unfolding whole
          by (auto simp: red_black_def balanced_plug path_balanced_append[of _ q Rgt c y l p z])
        show "path_no_red_red ?P'"
          using assms unfolding whole
          by (auto simp: red_black_def no_red_red_plug path_no_red_red_append[of q Rgt c y l p z])
        show "top_color ?P' = RED \<longrightarrow> cy = BLACK"
          using assms unfolding whole
          by (auto simp: red_black_def no_red_red_plug top_color_append[of q Rgt c y l p z])
        show "(if ?P' = [] then cy else root_color ?P') = BLACK"
          using rcP by simp
      qed
      then show ?thesis using lN rN mp y' by simp
    qed
  qed
qed

subsection \<open>Reachable states are red-black trees\<close>

lemma find_path_plug: "find_path cmp k t p = (t', p') \<Longrightarrow> plug t' p' = plug t p"
  by (induction t arbitrary: p) (auto simp: Let_def split: if_splits)

lemma upper_path_plug: "plug Leaf (upper_path cmp k t p) = plug t p"
  by (induction t arbitrary: p) auto

lemma link_node_red_black:
  assumes "red_black (plug Leaf p)"
  shows "red_black (link_node n p)"
proof -
  have "balanced (insert_fixup (Node RED Leaf n Leaf) p)
      \<and> no_red_red (paint BLACK (insert_fixup (Node RED Leaf n Leaf) p))"
    using assms by (intro insert_fixup_inv) (auto simp: red_black_def balanced_plug no_red_red_plug)
  then show ?thesis by (simp add: red_black_def link_node_def)
qed

lemma replace_node_red_black:
  "red_black (plug (Node c l m r) p) \<Longrightarrow> red_black (plug (Node c l m' r) p)"
  by (auto simp: red_black_def balanced_plug no_red_red_plug color_of_plug)

lemma reachable_red_black: "reachable pol cmp T \<Longrightarrow> red_black (root T)"
proof (induction rule: reachable.induct)
  case reach_new
  then show ?case by (simp add: Tree_new_def red_black_def)
next
  case (reach_insertUnique T n)
  obtain t' p where fp: "find_path (compare T) (node_key n) (root T) [] = (t', p)"
    by (cases "find_path (compare T) (node_key n) (root T) []")
  show ?case
  proof (cases t')
    case Leaf
    then show ?thesis
      using reach_insertUnique.IH fp find_path_plug[OF fp]
      by (simp add: Tree_insertUnique_def link_node_red_black)
  next
    case (Node c l m r)
    then show ?thesis
      using reach_insertUnique.IH fp by (simp add: Tree_insertUnique_def)
  qed
next
  case (reach_insertMulti T n)
  then show ?case
    by (simp add: Tree_insertMulti_def Let_def link_node_red_black upper_path_plug)
next
  case (reach_insertOrReplace T n)
  obtain t' p where fp: "find_path (compare T) (node_key n) (root T) [] = (t', p)"
    by (cases "find_path (compare T) (node_key n) (root T) []")
  show ?case
  proof (cases t')
    case Leaf
    then show ?thesis
      using reach_insertOrReplace.IH fp find_path_plug[OF fp]
      by (simp add: Tree_insertOrReplace_def link_node_red_black)
  next
    case (Node c l m r)
    have "red_black (plug (Node c l m r) p)"
      using reach_insertOrReplace.IH find_path_plug[OF fp] Node by simp
    then have "red_black (plug (Node c l (m\<lparr>node_value := node_value n\<rparr>) r) p)"
      by (rule replace_node_red_black)
    then show ?thesis
      using fp Node by (simp add: Tree_insertOrReplace_def)
  qed
next
  case (reach_erase T a T')
  then obtain z p where zp: "path_to a (root T) [] = Some (z, p)"
    and T': "T' = T\<lparr>root := erase_at z p, tsize := tsize T - 1\<rparr>"
    by (auto simp: Tree_erase_def split: option.splits)
  obtain c l n r where z: "z = Node c l n r"
    using path_to_Node[OF zp] by auto
  have "red_black (plug z p)" using path_to_plug[OF zp] reach_erase.IH by simp
  then have "red_black (erase_at (Node c l n r) p)" unfolding z by (rule erase_at_red_black)
  then show ?case unfolding T' z by (simp del: erase_at.simps)
next
  case (reach_clear T)
  then show ?case by (simp add: Tree_clear_def red_black_def)
qed

lemma black_counts_balanced: "balanced t \<Longrightarrow> set (black_counts t) = {bh t}"
  by (induction t) auto

lemma balanced_subtrees: "balanced t \<Longrightarrow> s \<in> set (subtrees t) \<Longrightarrow> balanced s"
  by (induction t) auto

lemma balanced_uniform_black: "balanced t \<Longrightarrow> uniform_black t"
  unfolding uniform_black_def
  using black_counts_balanced balanced_subtrees by fastforce

subsection \<open>Comparators and the order of the keys\<close>

lemma cmp_swap: "valid_compare cmp \<Longrightarrow> (cmp b a > 0) = (cmp a b < 0)"
  by (auto simp: valid_compare_def)

lemma cmp_refl: "valid_compare cmp \<Longrightarrow> cmp a a = 0"
  using cmp_swap[of cmp a a] by auto

lemma cmp_eq_sym:
  assumes "valid_compare cmp"
  shows "(cmp a b = 0) = (cmp b a = 0)"
  using cmp_swap[OF assms, of a b] cmp_swap[OF assms, of b a] by arith

lemma cmp_le_swap:
  assumes "valid_compare cmp"
  shows "(cmp b a \<ge> 0) = (cmp a b \<le> 0)"
  using cmp_swap[OF assms, of b a] cmp_swap[OF assms, of a b] by arith

lemma cmp_le_trans: "valid_compare cmp \<Longrightarrow> cmp a b \<le> 0 \<Longrightarrow> cmp b c \<le> 0 \<Longrightarrow> cmp a c \<le> 0"
  unfolding valid_compare_def by blast

lemma cmp_lt_le_trans:
  assumes "valid_compare cmp" "cmp a b < 0" "cmp b c \<le> 0"
  shows "cmp a c < 0"
proof (rule ccontr)
  assume "\<not> cmp a c < 0"
  then have "cmp c a \<le> 0" using cmp_le_swap[OF assms(1), of a c] by simp
  then have "cmp b a \<le> 0" using cmp_le_trans[OF assms(1) assms(3)] by blast
  then show False using assms(2) cmp_swap[OF assms(1), of b a] by simp
qed

lemma cmp_le_lt_trans:
  assumes "valid_compare cmp" "cmp a b \<le> 0" "cmp b c < 0"
  shows "cmp a c < 0"
proof (rule ccontr)
  assume "\<not> cmp a c < 0"
  then have "cmp c a \<le> 0" using cmp_le_swap[OF assms(1), of a c] by simp
  then have "cmp c b \<le> 0" using cmp_le_trans[OF assms(1) _ assms(2)] by blast
  then show False using assms(3) cmp_swap[OF assms(1), of c b] by simp
qed

lemma valid_compare_int: "valid_compare compare_int"
  by (auto simp: valid_compare_def compare_int_def)

lemma sorted_wrt_insert_mid:
  "sorted_wrt R (xs @ ys) \<Longrightarrow> \<forall>x\<in>set xs. R x n \<Longrightarrow> \<forall>y\<in>set ys. R n y
   \<Longrightarrow> sorted_wrt R (xs @ n # ys)"
  by (auto simp: sorted_wrt_append)

lemma sorted_wrt_remove_mid: "sorted_wrt R (xs @ z # ys) \<Longrightarrow> sorted_wrt R (xs @ ys)"
  by (auto simp: sorted_wrt_append)

lemma find_path_bounds:
  assumes "valid_compare cmp"
  shows "find_path cmp k t p = (t', p') \<Longrightarrow> sorted_wrt (key_le cmp) (inorder (plug t p))
    \<Longrightarrow> \<forall>x\<in>set (path_before p). cmp (node_key x) k < 0
    \<Longrightarrow> \<forall>x\<in>set (path_after p). cmp k (node_key x) < 0
    \<Longrightarrow> (\<forall>x\<in>set (path_before p'). cmp (node_key x) k < 0)
        \<and> (\<forall>x\<in>set (path_after p'). cmp k (node_key x) < 0)"
proof (induction t arbitrary: p)
  case Leaf
  then show ?case by simp
next
  case (Node c l n r)
  have srt: "sorted_wrt (key_le cmp) (path_before p @ (inorder l @ n # inorder r) @ path_after p)"
    using Node.prems(2) by (simp add: inorder_plug)
  show ?case
  proof (cases "cmp k (node_key n) < 0")
    case True
    have fp: "find_path cmp k l (Frame Lft c n r # p) = (t', p')"
      using Node.prems(1) True by simp
    have "\<forall>x\<in>set (inorder r). cmp k (node_key x) < 0"
    proof
      fix x assume "x \<in> set (inorder r)"
      then have "key_le cmp n x" using srt by (auto simp: sorted_wrt_append)
      then show "cmp k (node_key x) < 0"
        using cmp_lt_le_trans[OF assms True] by (simp add: key_le_def)
    qed
    then show ?thesis
      using Node.IH(1)[OF fp] Node.prems True by (auto simp: inorder_plug)
  next
    case False
    show ?thesis
    proof (cases "cmp k (node_key n) > 0")
      case True
      then have nk: "cmp (node_key n) k < 0" using cmp_swap[OF assms] by simp
      have fp: "find_path cmp k r (Frame Rgt c n l # p) = (t', p')"
        using Node.prems(1) True False by simp
      have "\<forall>x\<in>set (inorder l). cmp (node_key x) k < 0"
      proof
        fix x assume "x \<in> set (inorder l)"
        then have "key_le cmp x n" using srt by (auto simp: sorted_wrt_append)
        then show "cmp (node_key x) k < 0"
          using cmp_le_lt_trans[OF assms _ nk] by (simp add: key_le_def)
      qed
      then show ?thesis
        using Node.IH(2)[OF fp] Node.prems nk by (auto simp: inorder_plug)
    next
      case F2: False
      then show ?thesis using Node.prems False by simp
    qed
  qed
qed

lemma upper_path_bounds:
  assumes "valid_compare cmp"
  shows "sorted_wrt (key_le cmp) (inorder (plug t p))
    \<Longrightarrow> \<forall>x\<in>set (path_before p). cmp (node_key x) k \<le> 0
    \<Longrightarrow> \<forall>x\<in>set (path_after p). cmp k (node_key x) < 0
    \<Longrightarrow> (\<forall>x\<in>set (path_before (upper_path cmp k t p)). cmp (node_key x) k \<le> 0)
        \<and> (\<forall>x\<in>set (path_after (upper_path cmp k t p)). cmp k (node_key x) < 0)"
proof (induction t arbitrary: p)
  case Leaf
  then show ?case by simp
next
  case (Node c l n r)
  have srt: "sorted_wrt (key_le cmp) (path_before p @ (inorder l @ n # inorder r) @ path_after p)"
    using Node.prems(1) by (simp add: inorder_plug)
  show ?case
  proof (cases "cmp k (node_key n) < 0")
    case True
    have "\<forall>x\<in>set (inorder r). cmp k (node_key x) < 0"
    proof
      fix x assume "x \<in> set (inorder r)"
      then have "key_le cmp n x" using srt by (auto simp: sorted_wrt_append)
      then show "cmp k (node_key x) < 0"
        using cmp_lt_le_trans[OF assms True] by (simp add: key_le_def)
    qed
    then show ?thesis
      using Node.IH(1)[of "Frame Lft c n r # p"] Node.prems True by (auto simp: inorder_plug)
  next
    case False
    then have nk: "cmp (node_key n) k \<le> 0" using cmp_le_swap[OF assms, of k "node_key n"] by simp
    have "\<forall>x\<in>set (inorder l). cmp (node_key x) k \<le> 0"
    proof
      fix x assume "x \<in> set (inorder l)"
      then have "key_le cmp x n" using srt by (auto simp: sorted_wrt_append)
      then show "cmp (node_key x) k \<le> 0"
        using cmp_le_trans[OF assms _ nk] by (simp add: key_le_def)
    qed
    then show ?thesis
      using Node.IH(2)[of "Frame Rgt c n l # p"] Node.prems False nk by (auto simp: inorder_plug)
  qed
qed

lemma inorder_link_node: "inorder (link_node n p) = path_before p @ n # path_after p"
  by (simp add: link_node_def inorder_insert_fixup inorder_plug)

lemma find_path_Leaf_inorder:
  "find_path cmp k t [] = (Leaf, p) \<Longrightarrow> inorder t = path_before p @ path_after p"
  using find_path_plug[of cmp k t "[]" Leaf p] inorder_plug[of Leaf p] by simp

lemma upper_path_inorder:
  "inorder t = path_before (upper_path cmp k t []) @ path_after (upper_path cmp k t [])"
  using upper_path_plug[of cmp k t "[]"] inorder_plug[of Leaf "upper_path cmp k t []"] by simp

lemma insert_unique_sorted:
  assumes "valid_compare cmp" "find_path cmp (node_key n) t [] = (Leaf, p)"
    and "sorted_wrt (key_le cmp) (inorder t)"
  shows "sorted_wrt (key_le cmp) (inorder (link_node n p))"
    and "sorted_wrt (key_lt cmp) (inorder t) \<Longrightarrow> sorted_wrt (key_lt cmp) (inorder (link_node n p))"
proof -
  have b: "(\<forall>x\<in>set (path_before p). cmp (node_key x) (node_key n) < 0)
        \<and> (\<forall>x\<in>set (path_after p). cmp (node_key n) (node_key x) < 0)"
    using find_path_bounds[OF assms(1) assms(2)] assms(3) by simp
  show "sorted_wrt (key_le cmp) (inorder (link_node n p))"
    unfolding inorder_link_node
    using assms(3) b unfolding find_path_Leaf_inorder[OF assms(2)]
    by (intro sorted_wrt_insert_mid) (auto simp: key_le_def)
  show "sorted_wrt (key_lt cmp) (inorder (link_node n p))" if "sorted_wrt (key_lt cmp) (inorder t)"
    unfolding inorder_link_node
    using that b unfolding find_path_Leaf_inorder[OF assms(2)]
    by (intro sorted_wrt_insert_mid) (auto simp: key_lt_def)
qed

lemma insert_multi_sorted:
  assumes "valid_compare cmp" "sorted_wrt (key_le cmp) (inorder t)"
  shows "sorted_wrt (key_le cmp) (inorder (link_node n (upper_path cmp (node_key n) t [])))"
proof -
  let ?p = "upper_path cmp (node_key n) t []"
  have b: "(\<forall>x\<in>set (path_before ?p). cmp (node_key x) (node_key n) \<le> 0)
        \<and> (\<forall>x\<in>set (path_after ?p). cmp (node_key n) (node_key x) < 0)"
    using upper_path_bounds[OF assms(1), of t "[]" "node_key n"] assms(2) by simp
  have "sorted_wrt (key_le cmp) (path_before ?p @ path_after ?p)"
    using assms(2) upper_path_inorder[of t cmp "node_key n"] by simp
  then show ?thesis
    unfolding inorder_link_node
    using b by (intro sorted_wrt_insert_mid) (auto simp: key_le_def)
qed

lemma find_path_found:
  "find_path cmp k t p = (Node c l m r, p') \<Longrightarrow> cmp k (node_key m) = 0 \<and> m \<in> set (inorder t)"
  by (induction t arbitrary: p) (auto simp: Let_def split: if_splits)

lemma count_link_node: "count (link_node n p) = Suc (length (path_before p @ path_after p))"
  by (simp add: count_inorder inorder_link_node)

lemma path_before_append: "path_before (q @ p) = path_before p @ path_before q"
  by (induction q rule: path_before.induct) auto

lemma path_after_append: "path_after (q @ p) = path_after q @ path_after p"
  by (induction q rule: path_after.induct) auto

lemma inorder_unlink: "inorder (unlink c x p) = inorder (plug x p)"
  by (simp add: unlink_def inorder_delete_fixup)

lemma inorder_erase_at:
  "inorder (erase_at (Node c l z r) p) = path_before p @ inorder l @ inorder r @ path_after p"
proof (cases "l = Leaf \<or> r = Leaf")
  case True
  then show ?thesis by (auto simp: inorder_unlink inorder_plug)
next
  case False
  then have lN: "l \<noteq> Leaf" and rN: "r \<noteq> Leaf" by auto
  obtain y' q where mp: "min_path r [] = (y', q)" by (cases "min_path r []")
  then obtain cy y yr where y': "y' = Node cy Leaf y yr"
    using min_path_leftmost[OF mp rN] by auto
  have "inorder r = inorder (plug (Node cy Leaf y yr) q)"
    using min_path_plug[OF mp] y' by simp
  moreover have "path_before q = []" using min_path_before[OF mp] by simp
  ultimately have r: "inorder r = y # inorder yr @ path_after q"
    by (simp add: inorder_plug)
  show ?thesis
    using lN rN mp y' \<open>path_before q = []\<close>
    by (simp add: inorder_unlink inorder_plug path_before_append path_after_append r)
qed

lemma Tree_erase_entries:
  assumes "Tree_erase a T = Inr T'"
  shows "\<exists>xs z ys. inorder (root T) = xs @ z # ys \<and> node_id z = a
           \<and> inorder (root T') = xs @ ys \<and> tsize T' = tsize T - 1 \<and> compare T' = compare T"
proof -
  from assms obtain t p where zp: "path_to a (root T) [] = Some (t, p)"
    and T': "T' = T\<lparr>root := erase_at t p, tsize := tsize T - 1\<rparr>"
    by (auto simp: Tree_erase_def split: option.splits)
  obtain c l z r where t: "t = Node c l z r" and a: "node_id z = a"
    using path_to_Node[OF zp] by auto
  have "inorder (root T) = (path_before p @ inorder l) @ z # (inorder r @ path_after p)"
    using path_to_plug[OF zp] inorder_plug[of t p] by (simp add: t)
  moreover have "inorder (root T') = (path_before p @ inorder l) @ (inorder r @ path_after p)"
    unfolding T' t by (simp add: inorder_erase_at del: erase_at.simps)
  ultimately show ?thesis using a T'
    by (intro exI[of _ "path_before p @ inorder l"] exI[of _ z]
          exI[of _ "inorder r @ path_after p"]) simp
qed

lemma find_path_found_inorder:
  assumes "find_path cmp k t [] = (Node c l m r, p)"
  shows "inorder t = (path_before p @ inorder l) @ m # (inorder r @ path_after p)"
    and "inorder (plug (Node c l m' r) p) = (path_before p @ inorder l) @ m' # (inorder r @ path_after p)"
  using find_path_plug[OF assms] inorder_plug[of "Node c l m r" p] inorder_plug[of "Node c l m' r" p]
  by auto

lemma tree_inv_insertUnique:
  assumes "valid_compare cmp" "tree_inv pol cmp T" "node_id n \<notin> node_id ` set (inorder (root T))"
  shows "tree_inv pol cmp (snd (Tree_insertUnique n T))"
proof -
  obtain t' p where fp: "find_path cmp (node_key n) (root T) [] = (t', p)"
    by (cases "find_path cmp (node_key n) (root T) []")
  have cmpT: "compare T = cmp" using assms(2) by (simp add: tree_inv_def)
  show ?thesis
  proof (cases t')
    case Leaf
    note fpL = fp[unfolded Leaf]
    have io: "inorder (root T) = path_before p @ path_after p"
      by (rule find_path_Leaf_inorder[OF fpL])
    have "distinct (map node_id (path_before p @ n # path_after p))"
      using assms(2,3) unfolding tree_inv_def io by auto
    then show ?thesis
      using assms(2) fpL cmpT insert_unique_sorted[OF assms(1) fpL]
      by (simp add: Tree_insertUnique_def tree_inv_def inorder_link_node count_link_node
            count_inorder io)
  next
    case (Node c l m r)
    then show ?thesis using assms(2) fp cmpT by (simp add: Tree_insertUnique_def)
  qed
qed

lemma tree_inv_insertMulti:
  assumes "valid_compare cmp" "tree_inv Multi cmp T" "node_id n \<notin> node_id ` set (inorder (root T))"
  shows "tree_inv Multi cmp (snd (Tree_insertMulti n T))"
proof -
  let ?p = "upper_path cmp (node_key n) (root T) []"
  have cmpT: "compare T = cmp" using assms(2) by (simp add: tree_inv_def)
  have io: "inorder (root T) = path_before ?p @ path_after ?p"
    by (rule upper_path_inorder)
  have "distinct (map node_id (path_before ?p @ n # path_after ?p))"
    using assms(2,3) unfolding tree_inv_def io by auto
  moreover have "tsize T = length (path_before ?p @ path_after ?p)"
    using assms(2) io by (simp add: tree_inv_def count_inorder)
  ultimately show ?thesis
    using assms(2) cmpT insert_multi_sorted[OF assms(1), of "root T" n]
    by (simp add: Tree_insertMulti_def tree_inv_def inorder_link_node count_link_node Let_def)
qed

lemma sorted_key_le_map:
  "sorted_wrt (key_le cmp) xs = sorted_wrt (\<lambda>a b. cmp a b \<le> 0) (map node_key xs)"
  by (simp add: sorted_wrt_map key_le_def[abs_def])

lemma sorted_key_lt_map:
  "sorted_wrt (key_lt cmp) xs = sorted_wrt (\<lambda>a b. cmp a b < 0) (map node_key xs)"
  by (simp add: sorted_wrt_map key_lt_def[abs_def])

lemma tree_inv_insertOrReplace:
  assumes "valid_compare cmp" "tree_inv pol cmp T" "node_id n \<notin> node_id ` set (inorder (root T))"
  shows "tree_inv pol cmp (snd (Tree_insertOrReplace n T))"
proof -
  obtain t' p where fp: "find_path cmp (node_key n) (root T) [] = (t', p)"
    by (cases "find_path cmp (node_key n) (root T) []")
  have cmpT: "compare T = cmp" using assms(2) by (simp add: tree_inv_def)
  show ?thesis
  proof (cases t')
    case Leaf
    have "snd (Tree_insertOrReplace n T) = snd (Tree_insertUnique n T)"
      using fp Leaf cmpT by (simp add: Tree_insertOrReplace_def Tree_insertUnique_def)
    then show ?thesis using tree_inv_insertUnique[OF assms] by simp
  next
    case (Node c l m r)
    note fpN = fp[unfolded Node]
    let ?m = "m\<lparr>node_value := node_value n\<rparr>"
    have eq: "snd (Tree_insertOrReplace n T) = T\<lparr>root := plug (Node c l ?m r) p\<rparr>"
      using fpN cmpT by (simp add: Tree_insertOrReplace_def)
    show ?thesis
      unfolding eq using assms(2)
      unfolding tree_inv_def sorted_key_le_map sorted_key_lt_map
      by (simp add: find_path_found_inorder[OF fpN] count_inorder)
  qed
qed

lemma tree_inv_erase:
  assumes "tree_inv pol cmp T" "Tree_erase a T = Inr T'"
  shows "tree_inv pol cmp T'"
proof -
  obtain xs z ys where e: "inorder (root T) = xs @ z # ys" "inorder (root T') = xs @ ys"
    "tsize T' = tsize T - 1" "compare T' = compare T"
    using Tree_erase_entries[OF assms(2)] by blast
  show ?thesis
    using assms(1) unfolding tree_inv_def e count_inorder
    by (auto dest: sorted_wrt_remove_mid)
qed

lemma reachable_tree_inv:
  assumes "valid_compare cmp"
  shows "reachable pol cmp T \<Longrightarrow> tree_inv pol cmp T"
proof (induction rule: reachable.induct)
  case reach_new
  then show ?case by (simp add: Tree_new_def tree_inv_def)
next
  case (reach_insertUnique T n)
  then show ?case using tree_inv_insertUnique[OF assms] by (simp add: Tree_entries_inorder)
next
  case (reach_insertMulti T n)
  then show ?case using tree_inv_insertMulti[OF assms] by (simp add: Tree_entries_inorder)
next
  case (reach_insertOrReplace T n)
  then show ?case using tree_inv_insertOrReplace[OF assms] by (simp add: Tree_entries_inorder)
next
  case (reach_erase T a T')
  then show ?case using tree_inv_erase by blast
next
  case (reach_clear T)
  then show ?case by (simp add: Tree_clear_def tree_inv_def)
qed

subsection \<open>Queries\<close>

lemma find_node_absent:
  "\<forall>n \<in> set (inorder t). cmp k (node_key n) \<noteq> 0 \<Longrightarrow> find_node cmp k t = End"
  by (induction t) (auto simp: Let_def)

lemma find_node_find_path:
  "find_node cmp k t =
     (case fst (find_path cmp k t p) of Leaf \<Rightarrow> End | Node c l m r \<Rightarrow> At (node_id m))"
  by (induction t arbitrary: p) (auto simp: Let_def)

lemma find_path_present:
  assumes "valid_compare cmp"
  shows "sorted_wrt (key_le cmp) (inorder t) \<Longrightarrow> \<exists>e\<in>set (inorder t). cmp k (node_key e) = 0
    \<Longrightarrow> fst (find_path cmp k t p) \<noteq> Leaf"
proof (induction t arbitrary: p)
  case Leaf
  then show ?case by simp
next
  case (Node c l n r)
  from Node.prems(2) obtain e where e: "e \<in> set (inorder (Node c l n r))" "cmp k (node_key e) = 0"
    by blast
  have sl: "sorted_wrt (key_le cmp) (inorder l)" and sr: "sorted_wrt (key_le cmp) (inorder r)"
    using Node.prems(1) by (auto simp: sorted_wrt_append)
  show ?case
  proof (cases "cmp k (node_key n) < 0")
    case True
    have "e \<in> set (inorder l)"
    proof (rule ccontr)
      assume "e \<notin> set (inorder l)"
      then have "e = n \<or> e \<in> set (inorder r)" using e(1) by auto
      then have "key_le cmp n e"
        using Node.prems(1) cmp_refl[OF assms] by (auto simp: sorted_wrt_append key_le_def)
      then have "cmp k (node_key e) < 0"
        using cmp_lt_le_trans[OF assms True] by (simp add: key_le_def)
      then show False using e(2) by simp
    qed
    then show ?thesis using Node.IH(1)[OF sl] e(2) True by auto
  next
    case False
    show ?thesis
    proof (cases "cmp k (node_key n) > 0")
      case True
      then have nk: "cmp (node_key n) k < 0" using cmp_swap[OF assms] by simp
      have "e \<in> set (inorder r)"
      proof (rule ccontr)
        assume "e \<notin> set (inorder r)"
        then have "e = n \<or> e \<in> set (inorder l)" using e(1) by auto
        then have "key_le cmp e n"
          using Node.prems(1) cmp_refl[OF assms] by (auto simp: sorted_wrt_append key_le_def)
        then have "cmp (node_key e) k < 0"
          using cmp_le_lt_trans[OF assms _ nk] by (simp add: key_le_def)
        then show False using e(2) cmp_eq_sym[OF assms, of k "node_key e"] by simp
      qed
      then show ?thesis using Node.IH(2)[OF sr] e(2) True False by auto
    next
      case F2: False
      then show ?thesis using False by simp
    qed
  qed
qed

lemma find_node_At:
  "find_node cmp k t = At a \<Longrightarrow> \<exists>m\<in>set (inorder t). node_id m = a \<and> cmp k (node_key m) = 0"
  by (induction t) (auto simp: Let_def split: if_splits)

lemma find_node_present:
  assumes "valid_compare cmp" "sorted_wrt (key_le cmp) (inorder t)"
    and "\<exists>e\<in>set (inorder t). cmp k (node_key e) = 0"
  shows "\<exists>m\<in>set (inorder t). find_node cmp k t = At (node_id m) \<and> cmp k (node_key m) = 0"
proof -
  have "fst (find_path cmp k t []) \<noteq> Leaf"
    using find_path_present[OF assms(1,2,3)] .
  then obtain a where "find_node cmp k t = At a"
    using find_node_find_path[of cmp k t "[]"] by (auto split: rbt.splits)
  then show ?thesis using find_node_At[of cmp k t a] by auto
qed

lemma find_append:
  "List.find P (xs @ ys) = (case List.find P xs of None \<Rightarrow> List.find P ys | Some x \<Rightarrow> Some x)"
  by (induction xs) auto

lemma find_none: "\<forall>x\<in>set xs. \<not> P x \<Longrightarrow> List.find P xs = None"
  by (induction xs) auto

lemma lower_bound_node_correct:
  assumes "valid_compare cmp"
  shows "sorted_wrt (key_le cmp) (inorder t) \<Longrightarrow>
    lower_bound_node cmp k t y =
      (case List.find (\<lambda>n. \<not> cmp (node_key n) k < 0) (inorder t) of
         None \<Rightarrow> y | Some n \<Rightarrow> At (node_id n))"
proof (induction t arbitrary: y)
  case Leaf
  then show ?case by simp
next
  case (Node c l n r)
  have sl: "sorted_wrt (key_le cmp) (inorder l)" and sr: "sorted_wrt (key_le cmp) (inorder r)"
    using Node.prems(1) by (auto simp: sorted_wrt_append)
  show ?case
  proof (cases "cmp (node_key n) k < 0")
    case True
    have "\<forall>x\<in>set (inorder l). \<not> \<not> cmp (node_key x) k < 0"
    proof
      fix x assume "x \<in> set (inorder l)"
      then have "key_le cmp x n" using Node.prems(1) by (auto simp: sorted_wrt_append)
      then show "\<not> \<not> cmp (node_key x) k < 0"
        using cmp_le_lt_trans[OF assms _ True] by (simp add: key_le_def)
    qed
    then have "List.find (\<lambda>n. \<not> cmp (node_key n) k < 0) (inorder l) = None"
      by (rule find_none)
    then show ?thesis using True Node.IH(2)[OF sr] by (simp add: find_append)
  next
    case False
    then show ?thesis using Node.IH(1)[OF sl] by (simp add: find_append split: option.splits)
  qed
qed

lemma upper_bound_node_correct:
  assumes "valid_compare cmp"
  shows "sorted_wrt (key_le cmp) (inorder t) \<Longrightarrow>
    upper_bound_node cmp k t y =
      (case List.find (\<lambda>n. cmp (node_key n) k > 0) (inorder t) of
         None \<Rightarrow> y | Some n \<Rightarrow> At (node_id n))"
proof (induction t arbitrary: y)
  case Leaf
  then show ?case by simp
next
  case (Node c l n r)
  have sl: "sorted_wrt (key_le cmp) (inorder l)" and sr: "sorted_wrt (key_le cmp) (inorder r)"
    using Node.prems(1) by (auto simp: sorted_wrt_append)
  show ?case
  proof (cases "cmp (node_key n) k > 0")
    case True
    then show ?thesis using Node.IH(1)[OF sl] by (simp add: find_append split: option.splits)
  next
    case False
    then have nk: "cmp (node_key n) k \<le> 0" by simp
    have "\<forall>x\<in>set (inorder l). \<not> cmp (node_key x) k > 0"
    proof
      fix x assume "x \<in> set (inorder l)"
      then have "key_le cmp x n" using Node.prems(1) by (auto simp: sorted_wrt_append)
      then have "cmp (node_key x) k \<le> 0"
        using cmp_le_trans[OF assms _ nk] by (simp add: key_le_def)
      then show "\<not> cmp (node_key x) k > 0" by simp
    qed
    then have "List.find (\<lambda>n. cmp (node_key n) k > 0) (inorder l) = None"
      by (rule find_none)
    then show ?thesis using False Node.IH(2)[OF sr] by (simp add: find_append)
  qed
qed

lemma distinct_ids_eq:
  "distinct (map node_id xs) \<Longrightarrow> x \<in> set xs \<Longrightarrow> y \<in> set xs \<Longrightarrow> node_id x = node_id y
   \<Longrightarrow> x = y"
  by (auto simp: distinct_map inj_on_def)

lemma strict_no_other_equal:
  assumes "valid_compare cmp" "sorted_wrt (key_lt cmp) (xs @ z # ys)" "cmp k (node_key z) = 0"
  shows "\<forall>n\<in>set (xs @ ys). cmp k (node_key n) \<noteq> 0"
proof
  fix n assume n: "n \<in> set (xs @ ys)"
  have zk: "cmp (node_key z) k = 0" using assms(3) cmp_eq_sym[OF assms(1)] by simp
  show "cmp k (node_key n) \<noteq> 0"
  proof
    assume e: "cmp k (node_key n) = 0"
    then have nk: "cmp (node_key n) k = 0" using cmp_eq_sym[OF assms(1)] by simp
    from n consider "n \<in> set xs" | "n \<in> set ys" by auto
    then show False
    proof cases
      case 1
      then have "cmp (node_key n) (node_key z) < 0"
        using assms(2) by (auto simp: sorted_wrt_append key_lt_def)
      moreover have "cmp (node_key z) (node_key n) \<le> 0"
        using cmp_le_trans[OF assms(1), of "node_key z" k "node_key n"] zk e by simp
      ultimately show False using cmp_swap[OF assms(1), of "node_key z" "node_key n"] by simp
    next
      case 2
      then have "cmp (node_key z) (node_key n) < 0"
        using assms(2) by (auto simp: sorted_wrt_append key_lt_def)
      moreover have "cmp (node_key n) (node_key z) \<le> 0"
        using cmp_le_trans[OF assms(1), of "node_key n" k "node_key z"] nk assms(3) by simp
      ultimately show False using cmp_swap[OF assms(1), of "node_key n" "node_key z"] by simp
    qed
  qed
qed

lemma erase_found_tree:
  assumes "valid_compare cmp" "reachable pol cmp T"
    and "\<exists>e\<in>set (Tree_entries T). cmp k (node_key e) = 0"
  shows "\<exists>xs z ys T'. Tree_entries T = xs @ z # ys \<and> cmp k (node_key z) = 0
     \<and> Tree_find k T = At (node_id z) \<and> Tree_erase (node_id z) T = Inr T'
     \<and> Tree_entries T' = xs @ ys \<and> Tree_size T = Suc (Tree_size T')
     \<and> reachable pol cmp T'
     \<and> (pol = Unique \<longrightarrow> Tree_find k T' = End)"
proof -
  have inv: "tree_inv pol cmp T" using reachable_tree_inv[OF assms(1,2)] .
  then have c: "compare T = cmp" and srt: "sorted_wrt (key_le cmp) (inorder (root T))"
    and dis: "distinct (map node_id (inorder (root T)))" and sz: "tsize T = count (root T)"
    by (simp_all add: tree_inv_def)
  obtain m where m: "m \<in> set (inorder (root T))" "find_node cmp k (root T) = At (node_id m)"
    "cmp k (node_key m) = 0"
    using find_node_present[OF assms(1) srt] assms(3) by (auto simp: Tree_entries_inorder)
  have "path_to (node_id m) (root T) [] \<noteq> None"
    using m(1) by (simp add: path_to_None_iff)
  then obtain T' where e: "Tree_erase (node_id m) T = Inr T'"
    by (auto simp: Tree_erase_def split: option.splits)
  obtain xs z ys where ent: "inorder (root T) = xs @ z # ys" "node_id z = node_id m"
    "inorder (root T') = xs @ ys" "tsize T' = tsize T - 1" "compare T' = compare T"
    using Tree_erase_entries[OF e] by blast
  have zm: "z = m" using distinct_ids_eq[OF dis _ m(1) ent(2)] ent(1) by simp
  have r': "reachable pol cmp T'" using reach_erase[OF assms(2) e] .
  have size: "Tree_size T = Suc (Tree_size T')"
    using sz ent by (simp add: Tree_size_def count_inorder)
  have after: "Tree_find k T' = End" if "pol = Unique"
  proof -
    have "sorted_wrt (key_lt cmp) (xs @ z # ys)" using inv that ent(1) by (simp add: tree_inv_def)
    then have "\<forall>n\<in>set (inorder (root T')). cmp k (node_key n) \<noteq> 0"
      using strict_no_other_equal[OF assms(1) _ m(3)[folded zm]] ent(3) by simp
    then show ?thesis using ent(5) c by (simp add: Tree_find_def find_node_absent)
  qed
  show ?thesis
    apply (rule exI[of _ xs], rule exI[of _ m], rule exI[of _ ys], rule exI[of _ T'])
    using ent m e r' size after c zm by (simp add: Tree_entries_inorder Tree_find_def)
qed

subsection \<open>The set container\<close>

lemma tree_add:
  "tree (add k S) =
     snd (Tree_insertUnique \<lparr>node_id = next_addr S, node_key = k, node_value = None\<rparr> (tree S))"
  "next_addr (add k S) = Suc (next_addr S)"
  by (simp_all add: add_def new_node_def)

lemma reachable_compare: "reachable pol cmp T \<Longrightarrow> compare T = cmp"
proof (induction rule: reachable.induct)
  case (reach_erase T a T')
  then show ?case by (auto simp: Tree_erase_def split: option.splits)
qed (auto simp: Tree_new_def Tree_insertUnique_def Tree_insertMulti_def Tree_insertOrReplace_def
       Tree_clear_def Let_def split: prod.splits rbt.splits)

lemma ids_insertUnique:
  "node_id ` set (inorder (root (snd (Tree_insertUnique n T))))
     \<subseteq> insert (node_id n) (node_id ` set (inorder (root T)))"
proof (cases "find_path (compare T) (node_key n) (root T) []")
  case (Pair t' p)
  show ?thesis
  proof (cases t')
    case Leaf
    then show ?thesis
      using Pair find_path_Leaf_inorder[of "compare T" "node_key n" "root T" p]
      by (auto simp: Tree_insertUnique_def inorder_link_node)
  next
    case (Node c l m r)
    then show ?thesis using Pair by (auto simp: Tree_insertUnique_def)
  qed
qed

lemma ids_insertOrReplace:
  "node_id ` set (inorder (root (snd (Tree_insertOrReplace n T))))
     \<subseteq> insert (node_id n) (node_id ` set (inorder (root T)))"
proof (cases "find_path (compare T) (node_key n) (root T) []")
  case (Pair t' p)
  show ?thesis
  proof (cases t')
    case Leaf
    then show ?thesis
      using Pair find_path_Leaf_inorder[of "compare T" "node_key n" "root T" p]
      by (auto simp: Tree_insertOrReplace_def inorder_link_node)
  next
    case (Node c l m r)
    then show ?thesis
      using Pair find_path_found_inorder[of "compare T" "node_key n" "root T" c l m r p]
      by (auto simp: Tree_insertOrReplace_def)
  qed
qed

lemma ids_erase:
  "Tree_erase a T = Inr T' \<Longrightarrow> set (inorder (root T')) \<subseteq> set (inorder (root T))"
  using Tree_erase_entries[of a T T'] by auto

lemma set_inv_fresh:
  "set_inv S \<Longrightarrow> next_addr S \<notin> node_id ` set (inorder (root (tree S)))"
  by (auto simp: set_inv_def)

lemma tree_insertUnique:
  "tree (snd (TreeSet_insertUnique k S)) =
     snd (Tree_insertUnique \<lparr>node_id = next_addr S, node_key = k, node_value = None\<rparr> (tree S))"
  "next_addr (snd (TreeSet_insertUnique k S)) = Suc (next_addr S)"
  "fst (TreeSet_insertUnique k S) =
     fst (Tree_insertUnique \<lparr>node_id = next_addr S, node_key = k, node_value = None\<rparr> (tree S))"
  by (simp_all add: TreeSet_insertUnique_def new_node_def split: prod.splits)

lemma tree_insertOrReplace:
  "tree (snd (TreeSet_insertOrReplace k S)) =
     snd (Tree_insertOrReplace \<lparr>node_id = next_addr S, node_key = k, node_value = None\<rparr> (tree S))"
  "next_addr (snd (TreeSet_insertOrReplace k S)) = Suc (next_addr S)"
  by (simp_all add: TreeSet_insertOrReplace_def new_node_def split: prod.splits)

lemma set_inv_insertUnique:
  assumes "set_inv S"
  shows "set_inv (snd (TreeSet_insertUnique k S))"
proof -
  let ?n = "\<lparr>node_id = next_addr S, node_key = k, node_value = None\<rparr> :: ('a, unit) node"
  let ?T = "snd (Tree_insertUnique ?n (tree S))"
  have r: "reachable Unique (compare (tree S)) ?T"
    using assms set_inv_fresh[OF assms]
    by (intro reach_insertUnique) (auto simp: set_inv_def Tree_entries_inorder)
  have c: "compare ?T = compare (tree S)" using reachable_compare[OF r] .
  have "\<forall>n\<in>set (inorder (root ?T)). node_id n < Suc (next_addr S)"
    using ids_insertUnique[of ?n "tree S"] assms by (fastforce simp: set_inv_def less_Suc_eq)
  then show ?thesis
    using assms r c unfolding set_inv_def tree_insertUnique by simp
qed

lemma add_insertUnique: "add k S = snd (TreeSet_insertUnique k S)"
  by (simp add: add_def TreeSet_insertUnique_def split: prod.splits)

lemma set_inv_add: "set_inv S \<Longrightarrow> set_inv (add k S)"
  by (simp add: add_insertUnique set_inv_insertUnique)

lemma set_inv_add_all: "set_inv S \<Longrightarrow> set_inv (add_all ks S)"
  by (induction ks arbitrary: S) (auto simp: set_inv_add)

lemma set_inv_insertOrReplace:
  assumes "set_inv S"
  shows "set_inv (snd (TreeSet_insertOrReplace k S))"
proof -
  let ?n = "\<lparr>node_id = next_addr S, node_key = k, node_value = None\<rparr> :: ('a, unit) node"
  let ?T = "snd (Tree_insertOrReplace ?n (tree S))"
  have r: "reachable Unique (compare (tree S)) ?T"
    using assms set_inv_fresh[OF assms]
    by (intro reach_insertOrReplace) (auto simp: set_inv_def Tree_entries_inorder)
  have c: "compare ?T = compare (tree S)" using reachable_compare[OF r] .
  have "\<forall>n\<in>set (inorder (root ?T)). node_id n < Suc (next_addr S)"
    using ids_insertOrReplace[of ?n "tree S"] assms by (fastforce simp: set_inv_def less_Suc_eq)
  then show ?thesis
    using assms r c unfolding set_inv_def tree_insertOrReplace by simp
qed

lemma set_inv_erase:
  assumes "set_inv S" "TreeSet_erase it S = Inr S'"
  shows "set_inv S'"
proof -
  from assms(2) obtain a T' where it: "it = At a" and e: "Tree_erase a (tree S) = Inr T'"
    and S': "S' = S\<lparr>tree := T'\<rparr>"
    by (auto simp: TreeSet_erase_def split: cursor.splits sum.splits)
  have r: "reachable Unique (compare (tree S)) T'"
    using assms(1) e by (auto simp: set_inv_def intro: reach_erase)
  have c: "compare T' = compare (tree S)" using reachable_compare[OF r] .
  show ?thesis
    using assms(1) r c ids_erase[OF e] unfolding S' by (auto simp: set_inv_def)
qed

lemma set_inv_empty: "valid_compare cmp \<Longrightarrow> set_inv \<lparr>tree = Tree_new cmp, next_addr = 0\<rparr>"
  by (auto simp: set_inv_def intro: reach_new) (simp_all add: Tree_new_def reach_new[unfolded Tree_new_def])

lemma set_reachable_inv: "set_reachable S \<Longrightarrow> set_inv S"
proof (induction rule: set_reachable.induct)
  case (sreach_new cmp v S)
  then show ?case
    by (cases v) (auto simp: TreeSet_new_def set_inv_empty set_inv_add_all)
next
  case (sreach_add S k)
  then show ?case by (simp add: set_inv_add)
next
  case (sreach_insertUnique S k)
  then show ?case by (simp add: set_inv_insertUnique)
next
  case (sreach_insertOrReplace S k)
  then show ?case by (simp add: set_inv_insertOrReplace)
next
  case (sreach_delete S k S')
  then show ?case by (auto simp: delete_def Let_def set_inv_erase split: if_splits)
next
  case (sreach_erase S it S')
  then show ?case using set_inv_erase by blast
next
  case (sreach_clear S)
  then have "reachable Unique (compare (tree S)) (Tree_clear (tree S))"
    by (auto simp: set_inv_def intro: reach_clear)
  then show ?case using sreach_clear by (auto simp: set_inv_def clear_def Tree_clear_def)
next
  case (sreach_compareFunc S func)
  have eq: "(tree S)\<lparr>root := Leaf, tsize := 0, compare := func\<rparr> = Tree_new func"
    by (simp add: Tree_new_def)
  have "compare (Tree_new func :: ('a, unit) Tree) = func"
    "root (Tree_new func :: ('a, unit) Tree) = Leaf"
    by (simp_all add: Tree_new_def)
  then show ?case
    using sreach_compareFunc(2) reach_new[of Unique func]
    by (simp add: set_inv_def set_compareFunc_def clear_def Tree_clear_def Let_def eq)
qed

lemma set_inv_tree_inv:
  "set_inv S \<Longrightarrow> tree_inv Unique (compare (tree S)) (tree S)"
  using reachable_tree_inv by (auto simp: set_inv_def)

lemma has_iff:
  assumes "set_inv S"
  shows "has k S \<longleftrightarrow> (\<exists>x\<in>set (TreeSet_keys S). compare (tree S) k x = 0)"
proof
  assume "has k S"
  then obtain a where "find_node (compare (tree S)) k (root (tree S)) = At a"
    by (cases "find_node (compare (tree S)) k (root (tree S))")
       (auto simp: has_def Tree_find_def Tree_end_def equals_def)
  then show "\<exists>x\<in>set (TreeSet_keys S). compare (tree S) k x = 0"
    using find_node_At by (fastforce simp: TreeSet_keys_def Tree_keys_inorder)
next
  assume "\<exists>x\<in>set (TreeSet_keys S). compare (tree S) k x = 0"
  then have "\<exists>e\<in>set (inorder (root (tree S))). compare (tree S) k (node_key e) = 0"
    by (auto simp: TreeSet_keys_def Tree_keys_inorder)
  then show "has k S"
    using find_node_present[of "compare (tree S)" "root (tree S)" k] assms
      set_inv_tree_inv[OF assms]
    by (auto simp: has_def Tree_find_def Tree_end_def equals_def set_inv_def tree_inv_def)
qed

lemma insertUnique_present:
  assumes "valid_compare (compare T)" "sorted_wrt (key_le (compare T)) (inorder (root T))"
    and "\<exists>e\<in>set (inorder (root T)). compare T (node_key n) (node_key e) = 0"
  shows "\<exists>m\<in>set (inorder (root T)). compare T (node_key n) (node_key m) = 0
    \<and> Tree_insertUnique n T = (\<lparr>wasInserted = False, iterator = At (node_id m)\<rparr>, T)"
proof -
  obtain t' p where fp: "find_path (compare T) (node_key n) (root T) [] = (t', p)"
    by (cases "find_path (compare T) (node_key n) (root T) []")
  have "t' \<noteq> Leaf"
    using find_path_present[OF assms(1,2,3), of "[]"] fp by simp
  then obtain c l m r where t': "t' = Node c l m r" by (cases t') auto
  show ?thesis
    using find_path_found[OF fp[unfolded t']] fp t'
    by (intro bexI[of _ m]) (simp_all add: Tree_insertUnique_def)
qed

lemma insertUnique_absent:
  assumes "\<forall>e\<in>set (inorder (root T)). compare T (node_key n) (node_key e) \<noteq> 0"
  shows "\<exists>p. inorder (root T) = path_before p @ path_after p
    \<and> Tree_insertUnique n T =
        (\<lparr>wasInserted = True, iterator = At (node_id n)\<rparr>,
         T\<lparr>root := link_node n p, tsize := tsize T + 1\<rparr>)"
proof -
  obtain t' p where fp: "find_path (compare T) (node_key n) (root T) [] = (t', p)"
    by (cases "find_path (compare T) (node_key n) (root T) []")
  have t': "t' = Leaf"
  proof (cases t')
    case (Node c l m r)
    then show ?thesis using find_path_found[OF fp[unfolded Node]] assms by auto
  qed simp
  show ?thesis
    using fp t' find_path_Leaf_inorder[OF fp[unfolded t']]
    by (intro exI[of _ p]) (simp add: Tree_insertUnique_def)
qed

lemma keys_add:
  assumes "set_inv S"
  shows "set (TreeSet_keys (add k S)) =
     (if \<exists>x\<in>set (TreeSet_keys S). compare (tree S) k x = 0
      then set (TreeSet_keys S) else insert k (set (TreeSet_keys S)))"
    and "compare (tree (add k S)) = compare (tree S)"
proof -
  let ?cmp = "compare (tree S)"
  let ?n = "\<lparr>node_id = next_addr S, node_key = k, node_value = None\<rparr> :: ('a, unit) node"
  have v: "valid_compare ?cmp" using assms by (simp add: set_inv_def)
  have ti: "tree_inv Unique ?cmp (tree S)" using set_inv_tree_inv[OF assms] .
  let ?P = "\<exists>x\<in>set (TreeSet_keys S). ?cmp k x = 0"
  have "set (TreeSet_keys (add k S)) = (if ?P then set (TreeSet_keys S) else insert k (set (TreeSet_keys S)))
    \<and> compare (tree (add k S)) = ?cmp"
  proof (cases ?P)
    case True
    then have "\<exists>e\<in>set (inorder (root (tree S))). ?cmp (node_key ?n) (node_key e) = 0"
      by (auto simp: TreeSet_keys_def Tree_keys_inorder)
    then have "snd (Tree_insertUnique ?n (tree S)) = tree S"
      using insertUnique_present[of "tree S" ?n] v ti by (auto simp: tree_inv_def)
    then show ?thesis using True by (simp add: tree_add TreeSet_keys_def)
  next
    case False
    then have "\<forall>e\<in>set (inorder (root (tree S))). ?cmp (node_key ?n) (node_key e) \<noteq> 0"
      by (auto simp: TreeSet_keys_def Tree_keys_inorder)
    then obtain p where "inorder (root (tree S)) = path_before p @ path_after p"
      "Tree_insertUnique ?n (tree S) =
         (\<lparr>wasInserted = True, iterator = At (node_id ?n)\<rparr>,
          (tree S)\<lparr>root := link_node ?n p, tsize := tsize (tree S) + 1\<rparr>)"
      using insertUnique_absent[of "tree S" ?n] by blast
    then show ?thesis
      using False by (auto simp: tree_add TreeSet_keys_def Tree_keys_inorder inorder_link_node)
  qed
  then show "set (TreeSet_keys (add k S)) =
     (if ?P then set (TreeSet_keys S) else insert k (set (TreeSet_keys S)))"
    and "compare (tree (add k S)) = ?cmp" by simp_all
qed

lemma has_add:
  assumes "set_inv S"
  shows "has k (add k S)" and "has j S \<Longrightarrow> has j (add k S)"
proof -
  have inv': "set_inv (add k S)" using set_inv_add[OF assms] .
  have v: "valid_compare (compare (tree S))" using assms by (simp add: set_inv_def)
  show "has k (add k S)"
    unfolding has_iff[OF inv'] keys_add[OF assms]
    using cmp_refl[OF v, of k] by auto
  show "has j (add k S)" if "has j S"
    using that unfolding has_iff[OF inv'] has_iff[OF assms] keys_add[OF assms]
    by auto
qed

lemma has_add_all:
  "set_inv S \<Longrightarrow> k \<in> set ks \<or> has k S \<Longrightarrow> has k (add_all ks S)"
proof (induction ks arbitrary: S)
  case Nil
  then show ?case by simp
next
  case (Cons x ks)
  have "k \<in> set ks \<or> has k (add x S)"
    using Cons.prems has_add[OF Cons.prems(1)] by auto
  then show ?case using Cons.IH[OF set_inv_add[OF Cons.prems(1)]] by simp
qed

lemma keys_add_all:
  "set_inv S \<Longrightarrow> set (TreeSet_keys (add_all ks S)) \<subseteq> set (TreeSet_keys S) \<union> set ks"
proof (induction ks arbitrary: S)
  case Nil
  then show ?case by simp
next
  case (Cons x ks)
  have "set (TreeSet_keys (add x S)) \<subseteq> insert x (set (TreeSet_keys S))"
    using keys_add(1)[OF Cons.prems, of x] by (auto split: if_splits)
  then show ?case using Cons.IH[OF set_inv_add[OF Cons.prems], of ] by auto
qed

subsection \<open>The examples\<close>

lemmas eval_defs = Tree_insertUnique_def Tree_insertMulti_def Tree_insertOrReplace_def
  Tree_new_def link_node_def compare_int_def Tree_entries_inorder Let_def

lemma example_tree_reachable: "reachable Multi compare_int example_tree"
  unfolding example_tree_def
  by (intro reachable.intros) (simp_all add: eval_defs)

lemma example_set_set_reachable: "set_reachable example_set"
  by (rule sreach_new[of compare_int "Iterable [5, 1, 3, 2, 4]"])
     (simp_all add: valid_compare_int TreeSet_new_def example_set_def)

lemma example_set_compare: "compare (tree example_set) = compare_int"
  by (simp add: example_set_def add_def new_node_def eval_defs)

lemma example_set_reachable: "reachable Unique compare_int (tree example_set)"
  using set_reachable_inv[OF example_set_set_reachable]
  by (simp add: set_inv_def example_set_compare)

lemma example_set_keys: "TreeSet_keys example_set = [1, 2, 3, 4, 5]"
  by (simp add: example_set_def TreeSet_keys_def Tree_keys_inorder add_def new_node_def eval_defs)

lemma example_tree_entries:
  "Tree_entries example_tree =
     [\<lparr>node_id = 1, node_key = 1, node_value = None\<rparr>,
      \<lparr>node_id = 2, node_key = 3, node_value = None\<rparr>,
      \<lparr>node_id = 3, node_key = 3, node_value = None\<rparr>,
      \<lparr>node_id = 0, node_key = 5, node_value = None\<rparr>]"
  by (simp add: example_tree_def eval_defs)

lemma example_set_entries:
  "Tree_entries (tree example_set) =
     [\<lparr>node_id = 1, node_key = 1, node_value = None\<rparr>,
      \<lparr>node_id = 3, node_key = 2, node_value = None\<rparr>,
      \<lparr>node_id = 2, node_key = 3, node_value = None\<rparr>,
      \<lparr>node_id = 4, node_key = 4, node_value = None\<rparr>,
      \<lparr>node_id = 0, node_key = 5, node_value = None\<rparr>]"
  by (simp add: example_set_def add_def new_node_def eval_defs)

section \<open>The claims\<close>

subsection \<open>Navigation helpers of a node\<close>

text \<open>
  Claim C10. For every node of every store, \<open>grandparent\<close>, \<open>sibling\<close> and \<open>uncle\<close>
  return a value and never throw: they return \<^verbatim>\<open>null\<close> when the node has no parent
  (for \<open>uncle\<close> also when the parent has no parent), and otherwise the parent's parent,
  the other child of the parent (the right child when the node is the left one, else
  the left child) and the parent's sibling, the other child of the grandparent.
\<close>

theorem navigation_total:
  "grandparent h this =
     Inr (case parent (h this) of None \<Rightarrow> None | Some p \<Rightarrow> parent (h p))
   \<and> sibling h this =
     Inr (case parent (h this) of None \<Rightarrow> None
          | Some p \<Rightarrow> if left (h p) = Some this then right (h p) else left (h p))
   \<and> uncle h this =
     Inr (case parent (h this) of None \<Rightarrow> None
          | Some p \<Rightarrow> (case parent (h p) of None \<Rightarrow> None
              | Some g \<Rightarrow> if left (h g) = Some p then right (h g) else left (h g)))"
  by (auto simp: grandparent_def sibling_def uncle_def get_field_def Let_def
           split: option.splits)


subsection \<open>Red-black invariants\<close>

text \<open>
  Claim C1. Every state that a sequence of \<open>insertUnique\<close>, \<open>insertMulti\<close>,
  \<open>insertOrReplace\<close>, \<open>erase\<close> and \<open>clear\<close> produces from the empty tree satisfies the
  red-black invariants: the root is Black (an absent root counts as Black), no Red node
  has a Red child, and below every node all paths to absent children pass through the
  same number of Black nodes.
\<close>

theorem reachable_invariants:
  "reachable pol cmp T \<Longrightarrow>
     color_of (root T) = BLACK \<and> no_red_red (root T) \<and> uniform_black (root T)"
  using reachable_red_black[of pol cmp T] balanced_uniform_black[of "root T"]
  by (simp add: red_black_def)

theorem reachable_invariants_witness:
  "case Tree_erase 1 example_tree of
     Inl e \<Rightarrow> False
   | Inr T \<Rightarrow> color_of (root T) = BLACK \<and> no_red_red (root T) \<and> uniform_black (root T)"
proof -
  obtain T where e: "Tree_erase 1 example_tree = Inr T"
    by (cases "Tree_erase 1 example_tree")
       (simp_all add: Tree_erase_def example_tree_def eval_defs split: option.splits)
  have "reachable Multi compare_int T"
    using reach_erase[OF example_tree_reachable e] .
  from reachable_invariants[OF this] e show ?thesis by simp
qed

subsection \<open>Order of the traversal\<close>

text \<open>
  Claim C2. After every sequence of insert and erase operations on an initially empty
  tree, whose comparator is a three-way comparison function, a forward traversal yields
  the keys in non-decreasing order; under the unique-key policy the order is strictly
  increasing, so no two traversed keys compare equal. Inserting 5, 1, 3, 2, 4 into an
  empty set and traversing forward yields 1, 2, 3, 4, 5.
\<close>

theorem traversal_sorted:
  "(valid_compare cmp \<and> reachable pol cmp T \<longrightarrow>
      sorted_wrt (\<lambda>a b. cmp a b \<le> 0) (Tree_keys T)
      \<and> (pol = Unique \<longrightarrow> sorted_wrt (\<lambda>a b. cmp a b < 0) (Tree_keys T)))
   \<and> TreeSet_keys (add_all [5, 1, 3, 2, 4] \<lparr>tree = Tree_new compare_int, next_addr = 0\<rparr>)
       = [1, 2, 3, 4, 5]"
proof (intro conjI impI)
  assume a: "valid_compare cmp \<and> reachable pol cmp T"
  then have inv: "tree_inv pol cmp T" using reachable_tree_inv by blast
  show "sorted_wrt (\<lambda>a b. cmp a b \<le> 0) (Tree_keys T)"
    using inv by (simp add: tree_inv_def Tree_keys_inorder sorted_key_le_map)
  show "sorted_wrt (\<lambda>a b. cmp a b < 0) (Tree_keys T)" if "pol = Unique"
    using inv that by (simp add: tree_inv_def Tree_keys_inorder sorted_key_lt_map)
next
  show "TreeSet_keys (add_all [5, 1, 3, 2, 4] \<lparr>tree = Tree_new compare_int, next_addr = 0\<rparr>)
       = [1, 2, 3, 4, 5]"
    using example_set_keys by (simp add: example_set_def)
qed

theorem traversal_sorted_witness:
  "sorted_wrt (\<lambda>a b. compare_int a b \<le> 0) (Tree_keys (tree example_set))
   \<and> sorted_wrt (\<lambda>a b. compare_int a b < 0) (Tree_keys (tree example_set))
   \<and> Tree_keys (tree example_set) = [1, 2, 3, 4, 5]"
  using traversal_sorted[of compare_int Unique "tree example_set"]
    valid_compare_int example_set_reachable example_set_keys
  by (simp add: TreeSet_keys_def)

subsection \<open>Range queries\<close>

text \<open>
  Claim C4. In every reachable state of a tree whose comparator is a three-way
  comparison function, \<open>lowerBound(k)\<close> is the cursor at the first node of the traversal
  whose key is not less than \<open>k\<close>, and \<open>upperBound(k)\<close> the cursor at the first node whose
  key is greater than \<open>k\<close>; each is the end cursor if there is no such node. In the tree
  with the keys 1, 3, 3, 5 (nodes 1, 2, 3, 0 in traversal order), \<open>lowerBound(3)\<close> is at
  the first 3 and \<open>upperBound(3)\<close> is at 5.
\<close>

theorem bounds_correct:
  "(valid_compare cmp \<and> reachable pol cmp T \<longrightarrow>
      Tree_lowerBound k T =
        (case List.find (\<lambda>n. \<not> cmp (node_key n) k < 0) (Tree_entries T) of
           None \<Rightarrow> End | Some n \<Rightarrow> At (node_id n))
      \<and> Tree_upperBound k T =
        (case List.find (\<lambda>n. cmp (node_key n) k > 0) (Tree_entries T) of
           None \<Rightarrow> End | Some n \<Rightarrow> At (node_id n)))
   \<and> map node_key (Tree_entries example_tree) = [1, 3, 3, 5]
   \<and> map node_id (Tree_entries example_tree) = [1, 2, 3, 0]
   \<and> Tree_lowerBound 3 example_tree = At 2
   \<and> Tree_upperBound 3 example_tree = At 0"
proof (intro conjI impI)
  assume a: "valid_compare cmp \<and> reachable pol cmp T"
  then have inv: "tree_inv pol cmp T" using reachable_tree_inv by blast
  then have c: "compare T = cmp" and s: "sorted_wrt (key_le cmp) (inorder (root T))"
    by (simp_all add: tree_inv_def)
  show "Tree_lowerBound k T =
        (case List.find (\<lambda>n. \<not> cmp (node_key n) k < 0) (Tree_entries T) of
           None \<Rightarrow> End | Some n \<Rightarrow> At (node_id n))"
    using a s by (simp add: Tree_lowerBound_def Tree_entries_inorder c lower_bound_node_correct)
  show "Tree_upperBound k T =
        (case List.find (\<lambda>n. cmp (node_key n) k > 0) (Tree_entries T) of
           None \<Rightarrow> End | Some n \<Rightarrow> At (node_id n))"
    using a s by (simp add: Tree_upperBound_def Tree_entries_inorder c upper_bound_node_correct)
next
  show "map node_key (Tree_entries example_tree) = [1, 3, 3, 5]"
    by (simp add: example_tree_entries)
  show "map node_id (Tree_entries example_tree) = [1, 2, 3, 0]"
    by (simp add: example_tree_entries)
  show "Tree_lowerBound 3 example_tree = At 2"
    by (simp add: Tree_lowerBound_def example_tree_def eval_defs)
  show "Tree_upperBound 3 example_tree = At 0"
    by (simp add: Tree_upperBound_def example_tree_def eval_defs)
qed

theorem bounds_correct_witness:
  "Tree_lowerBound 4 example_tree = At 0 \<and> Tree_upperBound 5 example_tree = End
   \<and> Tree_lowerBound 3 example_tree = At 2 \<and> Tree_upperBound 1 example_tree = At 2"
  using bounds_correct[of compare_int Multi example_tree 4]
    bounds_correct[of compare_int Multi example_tree 5]
    bounds_correct[of compare_int Multi example_tree 1]
    valid_compare_int example_tree_reachable
  by (simp add: example_tree_entries compare_int_def)

subsection \<open>Erasing a found node\<close>

text \<open>
  Claim C5. In every reachable state of a tree whose comparator is a three-way
  comparison function and which holds a node with a key equal to \<open>k\<close>: \<open>find(k)\<close> is at
  a node \<open>z\<close> with a key equal to \<open>k\<close>, erasing that node succeeds, removes \<open>z\<close> and no
  other node from the traversal, and decreases the size by exactly 1; under the
  unique-key policy \<open>find(k)\<close> then returns the end cursor.
\<close>

theorem erase_found:
  "valid_compare cmp \<Longrightarrow> reachable pol cmp T
   \<Longrightarrow> \<exists>e\<in>set (Tree_entries T). cmp k (node_key e) = 0
   \<Longrightarrow> \<exists>xs z ys T'. Tree_entries T = xs @ z # ys \<and> cmp k (node_key z) = 0
         \<and> Tree_find k T = At (node_id z) \<and> Tree_erase (node_id z) T = Inr T'
         \<and> Tree_entries T' = xs @ ys \<and> Tree_size T = Suc (Tree_size T')
         \<and> (pol = Unique \<longrightarrow> Tree_find k T' = End)"
  using erase_found_tree[of cmp pol T k] by blast

theorem erase_found_witness:
  "\<exists>xs z ys T'. Tree_entries (tree example_set) = xs @ z # ys \<and> compare_int 3 (node_key z) = 0
     \<and> Tree_find 3 (tree example_set) = At (node_id z)
     \<and> Tree_erase (node_id z) (tree example_set) = Inr T'
     \<and> Tree_entries T' = xs @ ys \<and> Tree_size (tree example_set) = Suc (Tree_size T')
     \<and> Tree_find 3 T' = End"
proof -
  have "\<exists>e\<in>set (Tree_entries (tree example_set)). compare_int 3 (node_key e) = 0"
    by (simp add: example_set_entries compare_int_def)
  from erase_found[OF valid_compare_int example_set_reachable this]
  show ?thesis by simp
qed

subsection \<open>The set container\<close>

text \<open>
  Claim C9. Constructing a set with the argument \<^verbatim>\<open>undefined\<close> (also: with no
  argument) or \<^verbatim>\<open>null\<close> does not throw and yields an empty set of size 0.
\<close>

theorem constructor_without_argument:
  "(case TreeSet_new cmp Undefined of Inl e \<Rightarrow> False
    | Inr S \<Rightarrow> TreeSet_size S = 0 \<and> TreeSet_keys S = [])
   \<and> (case TreeSet_new cmp Null of Inl e \<Rightarrow> False
    | Inr S \<Rightarrow> TreeSet_size S = 0 \<and> TreeSet_keys S = [])"
  by (simp add: TreeSet_new_def TreeSet_size_def Tree_size_def Tree_new_def TreeSet_keys_def
        Tree_keys_inorder)

text \<open>
  Claim C6. In every state of a set, assigning \<open>compareFunc\<close> clears the contents:
  afterwards the size is 0, \<open>begin()\<close> equals \<open>end()\<close>, a traversal yields nothing, and the
  new function is the comparator.
\<close>

theorem compareFunc_clears:
  "TreeSet_size (set_compareFunc func S) = 0
   \<and> equals (TreeSet_begin (set_compareFunc func S)) (TreeSet_end (set_compareFunc func S))
   \<and> TreeSet_keys (set_compareFunc func S) = []
   \<and> compare (tree (set_compareFunc func S)) = func"
  by (simp add: set_compareFunc_def clear_def Tree_clear_def TreeSet_size_def Tree_size_def
        TreeSet_begin_def TreeSet_end_def Tree_begin_def Tree_end_def equals_def
        TreeSet_keys_def Tree_keys_inorder)

text \<open>
  Claim C8. If no key of the set compares equal to \<open>k\<close>, then \<open>delete(k)\<close> throws nothing
  and leaves the set as it was: \<open>find\<close> returns the end cursor, so \<open>erase\<close> is not called.
\<close>

theorem delete_absent_key:
  "\<forall>x \<in> set (TreeSet_keys S). compare (tree S) k x \<noteq> 0 \<Longrightarrow> delete k S = Inr S"
  by (simp add: delete_def Tree_find_def Tree_end_def equals_def TreeSet_keys_def Tree_keys_inorder
        find_node_absent)

theorem delete_absent_key_witness:
  "TreeSet_keys example_set = [1, 2, 3, 4, 5] \<and> delete 7 example_set = Inr example_set"
proof -
  have keys: "TreeSet_keys example_set = [1, 2, 3, 4, 5]"
    by (simp add: example_set_def TreeSet_keys_def Tree_keys_inorder add_def new_node_def eval_defs)
  have cmp: "compare (tree example_set) = compare_int"
    by (simp add: example_set_def add_def new_node_def eval_defs)
  have "\<forall>x \<in> set (TreeSet_keys example_set). compare (tree example_set) 7 x \<noteq> 0"
    unfolding keys cmp by (simp add: compare_int_def)
  from delete_absent_key[OF this] keys show ?thesis by simp
qed

text \<open>
  Claim C3, as amended. In every reachable state of a set, two calls of
  \<open>insertUnique(k)\<close> in succession increase the size by exactly 1 in total if no key of
  the set compared equal to \<open>k\<close> before the first call, and leave the size as it was
  otherwise; the first call reports \<open>wasInserted\<close> exactly in the first case. The second
  call leaves the tree as it is, reports \<open>wasInserted = false\<close> and returns a cursor at a
  node of the tree whose key is equal to \<open>k\<close>. Both calls return a result; nothing is
  thrown.
\<close>

theorem insertUnique_twice:
  assumes "set_reachable S"
  shows "case TreeSet_insertUnique k S of (r1, S1) \<Rightarrow>
     (case TreeSet_insertUnique k S1 of (r2, S2) \<Rightarrow>
        TreeSet_size S2 =
          (if \<exists>x\<in>set (TreeSet_keys S). compare (tree S) k x = 0
           then TreeSet_size S else TreeSet_size S + 1)
        \<and> wasInserted r1 = (\<not> (\<exists>x\<in>set (TreeSet_keys S). compare (tree S) k x = 0))
        \<and> tree S2 = tree S1 \<and> \<not> wasInserted r2
        \<and> (\<exists>m\<in>set (Tree_entries (tree S1)).
              iterator r2 = At (node_id m) \<and> compare (tree S1) k (node_key m) = 0))"
proof -
  let ?cmp = "compare (tree S)"
  let ?n = "\<lparr>node_id = next_addr S, node_key = k, node_value = None\<rparr> :: ('a, unit) node"
  have inv: "set_inv S" using set_reachable_inv[OF assms] .
  then have v: "valid_compare ?cmp" by (simp add: set_inv_def)
  have ti: "tree_inv Unique ?cmp (tree S)" using set_inv_tree_inv[OF inv] .
  obtain r1 S1 where one: "TreeSet_insertUnique k S = (r1, S1)"
    by (cases "TreeSet_insertUnique k S")
  obtain r2 S2 where two: "TreeSet_insertUnique k S1 = (r2, S2)"
    by (cases "TreeSet_insertUnique k S1")
  have S1: "S1 = snd (TreeSet_insertUnique k S)" and r1: "r1 = fst (TreeSet_insertUnique k S)"
    using one by simp_all
  have inv1: "set_inv S1" unfolding S1 using set_inv_insertUnique[OF inv] .
  have ti1: "tree_inv Unique (compare (tree S1)) (tree S1)" using set_inv_tree_inv[OF inv1] .
  have v1: "valid_compare (compare (tree S1))" using inv1 by (simp add: set_inv_def)
  let ?P = "\<exists>x\<in>set (TreeSet_keys S). ?cmp k x = 0"
  have first: "TreeSet_size S1 = (if ?P then TreeSet_size S else TreeSet_size S + 1)
      \<and> wasInserted r1 = (\<not> ?P)
      \<and> (\<exists>e\<in>set (inorder (root (tree S1))). compare (tree S1) k (node_key e) = 0)"
  proof (cases ?P)
    case True
    then have "\<exists>e\<in>set (inorder (root (tree S))). ?cmp (node_key ?n) (node_key e) = 0"
      by (auto simp: TreeSet_keys_def Tree_keys_inorder)
    then obtain m where "m \<in> set (inorder (root (tree S)))" "?cmp k (node_key m) = 0"
      "Tree_insertUnique ?n (tree S) = (\<lparr>wasInserted = False, iterator = At (node_id m)\<rparr>, tree S)"
      using insertUnique_present[of "tree S" ?n] v ti by (auto simp: tree_inv_def)
    then show ?thesis
      using True unfolding S1 r1 tree_insertUnique TreeSet_size_def
      by (auto simp: Tree_size_def)
  next
    case False
    then have "\<forall>e\<in>set (inorder (root (tree S))). ?cmp (node_key ?n) (node_key e) \<noteq> 0"
      by (auto simp: TreeSet_keys_def Tree_keys_inorder)
    then obtain p where
      "Tree_insertUnique ?n (tree S) =
         (\<lparr>wasInserted = True, iterator = At (node_id ?n)\<rparr>,
          (tree S)\<lparr>root := link_node ?n p, tsize := tsize (tree S) + 1\<rparr>)"
      using insertUnique_absent[of "tree S" ?n] by blast
    then show ?thesis
      using False cmp_refl[OF v, of k] unfolding S1 r1 tree_insertUnique TreeSet_size_def
      by (auto simp: Tree_size_def inorder_link_node)
  qed
  let ?n1 = "\<lparr>node_id = next_addr S1, node_key = k, node_value = None\<rparr> :: ('a, unit) node"
  from first obtain m where m: "m \<in> set (inorder (root (tree S1)))"
    "compare (tree S1) k (node_key m) = 0"
    "Tree_insertUnique ?n1 (tree S1) = (\<lparr>wasInserted = False, iterator = At (node_id m)\<rparr>, tree S1)"
    using insertUnique_present[of "tree S1" ?n1] v1 ti1 by (auto simp: tree_inv_def)
  have second: "tree S2 = tree S1" "\<not> wasInserted r2" "iterator r2 = At (node_id m)"
    using two m(3) tree_insertUnique[of k S1] by simp_all
  then have "TreeSet_size S2 = TreeSet_size S1" by (simp add: TreeSet_size_def)
  then have "TreeSet_size S2 = (if ?P then TreeSet_size S else TreeSet_size S + 1)
      \<and> wasInserted r1 = (\<not> ?P) \<and> tree S2 = tree S1 \<and> \<not> wasInserted r2
      \<and> (\<exists>m\<in>set (Tree_entries (tree S1)).
            iterator r2 = At (node_id m) \<and> compare (tree S1) k (node_key m) = 0)"
    using first second m by (auto simp: Tree_entries_inorder)
  then show ?thesis by (simp add: one two)
qed

theorem insertUnique_twice_witness:
  "case TreeSet_insertUnique 7 example_set of (r1, S1) \<Rightarrow>
     (case TreeSet_insertUnique 7 S1 of (r2, S2) \<Rightarrow>
        TreeSet_size S2 = TreeSet_size example_set + 1 \<and> wasInserted r1
        \<and> tree S2 = tree S1 \<and> \<not> wasInserted r2)"
  using insertUnique_twice[OF example_set_set_reachable, of 7]
  by (simp add: example_set_keys example_set_compare compare_int_def split: prod.splits)

text \<open>
  The claim as stated, an increase by exactly 1 for every set and every key, fails for a
  key that is already present: the set built from 5, 1, 3, 2, 4 has the same size after
  two calls of \<open>insertUnique(3)\<close>.
\<close>

theorem insertUnique_twice_counterexample:
  "set_reachable example_set
   \<and> TreeSet_size (snd (TreeSet_insertUnique 3 (snd (TreeSet_insertUnique 3 example_set))))
       \<noteq> TreeSet_size example_set + 1"
proof -
  have inv: "set_inv example_set" using set_reachable_inv[OF example_set_set_reachable] .
  have ti: "tree_inv Unique compare_int (tree example_set)"
    using set_inv_tree_inv[OF inv] by (simp add: example_set_compare)
  let ?n = "\<lparr>node_id = next_addr example_set, node_key = 3, node_value = None\<rparr> :: (int, unit) node"
  have "\<exists>e\<in>set (inorder (root (tree example_set))).
          compare (tree example_set) (node_key ?n) (node_key e) = 0"
    using example_set_entries
    by (simp add: Tree_entries_inorder example_set_compare compare_int_def)
  then have 1: "snd (Tree_insertUnique ?n (tree example_set)) = tree example_set"
    using insertUnique_present[of "tree example_set" ?n] ti valid_compare_int
    by (auto simp: tree_inv_def example_set_compare)
  let ?S1 = "snd (TreeSet_insertUnique 3 example_set)"
  have t1: "tree ?S1 = tree example_set" using 1 by (simp add: tree_insertUnique)
  let ?n1 = "\<lparr>node_id = next_addr ?S1, node_key = 3, node_value = None\<rparr> :: (int, unit) node"
  have "\<exists>e\<in>set (inorder (root (tree ?S1))). compare (tree ?S1) (node_key ?n1) (node_key e) = 0"
    unfolding t1 using example_set_entries
    by (simp add: Tree_entries_inorder example_set_compare compare_int_def)
  then have 2: "snd (Tree_insertUnique ?n1 (tree ?S1)) = tree ?S1"
    using insertUnique_present[of "tree ?S1" ?n1] ti valid_compare_int unfolding t1
    by (auto simp: tree_inv_def example_set_compare)
  have "TreeSet_size (snd (TreeSet_insertUnique 3 ?S1)) = TreeSet_size example_set"
    using 2 t1 by (simp add: TreeSet_size_def tree_insertUnique)
  then show ?thesis using example_set_set_reachable by simp
qed

text \<open>
  Claim C7. Constructing a set from an argument that is neither \<^verbatim>\<open>undefined\<close> nor
  \<^verbatim>\<open>null\<close> and is not iterable throws the error of the constructor. Constructing it
  from an iterable succeeds and yields the set obtained by calling \<open>add\<close> on each
  element in turn; with a three-way comparison function for the comparator, every
  element is then a member of the set, and the set holds no other keys.
\<close>

theorem constructor_iterable:
  "TreeSet_new cmp NotIterable = Inl (Error ''TreeSet constructor accepts only iterable objects'')
   \<and> (\<exists>S. TreeSet_new cmp (Iterable ks) = Inr S
          \<and> S = add_all ks \<lparr>tree = Tree_new cmp, next_addr = 0\<rparr>
          \<and> (valid_compare cmp \<longrightarrow> (\<forall>k\<in>set ks. has k S) \<and> set (TreeSet_keys S) \<subseteq> set ks))"
proof (intro conjI)
  show "TreeSet_new cmp NotIterable = Inl (Error ''TreeSet constructor accepts only iterable objects'')"
    by (simp add: TreeSet_new_def)
  let ?E = "\<lparr>tree = Tree_new cmp, next_addr = 0\<rparr> :: 'a TreeSet"
  have "(\<forall>k\<in>set ks. has k (add_all ks ?E)) \<and> set (TreeSet_keys (add_all ks ?E)) \<subseteq> set ks"
    if "valid_compare cmp"
    using has_add_all[OF set_inv_empty[OF that], of _ ks] keys_add_all[OF set_inv_empty[OF that], of ks]
    by (auto simp: TreeSet_keys_def Tree_keys_inorder Tree_new_def)
  then show "\<exists>S. TreeSet_new cmp (Iterable ks) = Inr S \<and> S = add_all ks ?E
          \<and> (valid_compare cmp \<longrightarrow> (\<forall>k\<in>set ks. has k S) \<and> set (TreeSet_keys S) \<subseteq> set ks)"
    by (simp add: TreeSet_new_def)
qed

theorem constructor_iterable_witness:
  "TreeSet_new compare_int (Iterable [5, 1, 3, 2, 4]) = Inr example_set
   \<and> list_all (\<lambda>k. has k example_set) [5, 1, 3, 2, 4]
   \<and> TreeSet_keys example_set = [1, 2, 3, 4, 5]
   \<and> TreeSet_new compare_int NotIterable
        = Inl (Error ''TreeSet constructor accepts only iterable objects'')"
  using constructor_iterable[of compare_int "[5, 1, 3, 2, 4]"] valid_compare_int example_set_keys
  by (simp add: example_set_def)

end
